theory Spec2Isabelle
  imports Main "HOL-Library.Word"
begin

unbundle bit_operations_syntax

section \<open>Machine types of c_buffer.h\<close>

text \<open>
  The embedding follows the default build of \<^verbatim>\<open>c_buffer.c\<close> (the \<^verbatim>\<open>memcpy\<close> branches,
  \<^verbatim>\<open>NO_MEMCPY\<close> undefined; the loops of the other build copy the same ranges) on an LP64
  target: \<^verbatim>\<open>size_t\<close> is a 64-bit word, the cursors are \<^verbatim>\<open>uint32_t\<close>, and every status or
  count leaves the API as an \<^verbatim>\<open>int32_t\<close>, kept here as a 32-bit word that is read with
  \<open>sint\<close>. The usual arithmetic conversions of C are written out: \<open>ucast\<close> widens an unsigned
  value or truncates, \<open>scast\<close> sign-extends an \<^verbatim>\<open>int32_t\<close>.
\<close>

type_synonym uint8_t = "8 word"
type_synonym uint16_t = "16 word"
type_synonym uint32_t = "32 word"
type_synonym int32_t = "32 word"
type_synonym size_t = "64 word"

text \<open>A pointer argument is either \<^verbatim>\<open>NULL\<close> or refers to an object.\<close>

datatype 'a ptr = NULL | Ptr 'a

text \<open>
  \<^verbatim>\<open>cBuffer_t\<close>. The field \<open>data\<close> holds the caller's array itself (its length is the
  length of the real object); \<^verbatim>\<open>size\<close> is renamed \<open>size_b\<close>.
\<close>

record cBuffer_t =
  data :: "uint8_t list"
  size_b :: size_t
  head :: uint32_t
  tail :: uint32_t

text \<open>\<^verbatim>\<open>cBufferErr_t\<close>, as the \<^verbatim>\<open>int32_t\<close> values the functions return.\<close>

definition C_BUFFER_WRAPED :: int32_t where
  "C_BUFFER_WRAPED = 1"

definition C_BUFFER_SUCCESS :: int32_t where
  "C_BUFFER_SUCCESS = 0"

definition C_BUFFER_NULL_ERROR :: int32_t where
  "C_BUFFER_NULL_ERROR = - 301"

definition C_BUFFER_INSUFFICIENT :: int32_t where
  "C_BUFFER_INSUFFICIENT = - 302"

definition C_BUFFER_MISMATCH :: int32_t where
  "C_BUFFER_MISMATCH = - 303"

section \<open>Memory access\<close>

text \<open>
  An access outside the array it is aimed at is undefined behaviour in C. The model makes it
  a value: \<open>None\<close>. \<open>memcpy dst d src s n\<close> is \<^verbatim>\<open>memcpy(dst + d, src + s, n)\<close>.
\<close>

definition memcpy :: "uint8_t list \<Rightarrow> nat \<Rightarrow> uint8_t list \<Rightarrow> nat \<Rightarrow> size_t \<Rightarrow> uint8_t list option" where
  "memcpy dst d src s n =
     (if d + unat n \<le> length dst \<and> s + unat n \<le> length src
      then Some (take d dst @ take (unat n) (drop s src) @ drop (d + unat n) dst)
      else None)"

definition load :: "uint8_t list \<Rightarrow> nat \<Rightarrow> uint8_t option" where
  "load arr i = (if i < length arr then Some (arr ! i) else None)"

definition store :: "uint8_t list \<Rightarrow> nat \<Rightarrow> uint8_t \<Rightarrow> uint8_t list option" where
  "store arr i v = (if i < length arr then Some (arr[i := v]) else None)"

text \<open>
  The macro \<^verbatim>\<open>MODULO_INC(value, increment, modulus)\<close> is
  \<^verbatim>\<open>(((value) + (increment)) % (modulus))\<close>. With a cursor and the literal \<^verbatim>\<open>1\<close> the sum is
  taken in \<^verbatim>\<open>uint32_t\<close> and then widened; with a cursor and a \<^verbatim>\<open>size_t\<close> it is taken in
  \<^verbatim>\<open>size_t\<close>. A zero modulus is a division by zero: \<open>None\<close>.
\<close>

definition MODULO_INC_1 :: "uint32_t \<Rightarrow> size_t \<Rightarrow> size_t option" where
  "MODULO_INC_1 v modulus =
     (if modulus = 0 then None else Some ((ucast (v + 1) :: size_t) mod modulus))"

definition MODULO_INC :: "uint32_t \<Rightarrow> size_t \<Rightarrow> size_t \<Rightarrow> size_t option" where
  "MODULO_INC v increment modulus =
     (if modulus = 0 then None else Some ((ucast v + increment) mod modulus))"

section \<open>Queries\<close>

definition cBufferInit :: "cBuffer_t ptr \<Rightarrow> uint8_t list ptr \<Rightarrow> size_t \<Rightarrow> int32_t \<times> cBuffer_t ptr" where
  "cBufferInit inst buffer buffer_size =
     (case (inst, buffer) of
        (Ptr b, Ptr arr) \<Rightarrow>
          if buffer_size = 0 then (C_BUFFER_NULL_ERROR, inst)
          else (C_BUFFER_SUCCESS, Ptr (b\<lparr>data := arr, size_b := buffer_size, head := 0, tail := 0\<rparr>))
      | _ \<Rightarrow> (C_BUFFER_NULL_ERROR, inst))"

definition cBufferEmpty :: "cBuffer_t ptr \<Rightarrow> int32_t" where
  "cBufferEmpty inst =
     (case inst of
        NULL \<Rightarrow> C_BUFFER_NULL_ERROR
      | Ptr b \<Rightarrow> if head b = tail b then 1 else 0)"

definition cBufferAvailableForRead :: "cBuffer_t ptr \<Rightarrow> int32_t" where
  "cBufferAvailableForRead inst =
     (case inst of
        NULL \<Rightarrow> C_BUFFER_NULL_ERROR
      | Ptr b \<Rightarrow>
          if head b < tail b
          then ucast ((size_b b - ucast (tail b)) + ucast (head b))
          else head b - tail b)"

definition cBufferAvailableForWrite :: "cBuffer_t ptr \<Rightarrow> int32_t" where
  "cBufferAvailableForWrite inst =
     (case inst of
        NULL \<Rightarrow> C_BUFFER_NULL_ERROR
      | Ptr b \<Rightarrow>
          if head b < tail b
          then tail b - head b - 1
          else ucast (size_b b - ucast (head b) + ucast (tail b) - 1))"

section \<open>Writing\<close>

text \<open>
  Each operation takes the instance the pointer refers to and returns the \<^verbatim>\<open>int32_t\<close>
  result together with the instance as the call leaves it; \<open>None\<close> is an access outside an
  array. The source array \<open>dat\<close> of a write is the caller's object, \<open>data_size\<close> the count
  that is passed along with it.
\<close>

definition cBufferPrepend ::
  "cBuffer_t ptr \<Rightarrow> uint8_t list ptr \<Rightarrow> size_t \<Rightarrow> (int32_t \<times> cBuffer_t ptr) option" where
  "cBufferPrepend inst dat data_size =
     (case (inst, dat) of
        (Ptr b, Ptr d) \<Rightarrow>
          if data_size = 0 then Some (C_BUFFER_SUCCESS, inst)
          else if (scast (cBufferAvailableForWrite inst) :: size_t) < data_size
          then Some (C_BUFFER_INSUFFICIENT, inst)
          else if head b = tail b then
            (let new_tail = (ucast (size_b b - data_size) :: uint32_t) in
             case memcpy (data b) (unat new_tail) d 0 data_size of
               None \<Rightarrow> None
             | Some arr \<Rightarrow>
                 Some (ucast data_size, Ptr (b\<lparr>data := arr, head := 0, tail := new_tail\<rparr>)))
          else if data_size > ucast (tail b) then
            (let data_ind = data_size - ucast (tail b) in
             case memcpy (data b) 0 d (unat data_ind) (ucast (tail b)) of
               None \<Rightarrow> None
             | Some arr1 \<Rightarrow>
                 (let new_tail = size_b b - (data_size - ucast (tail b)) in
                  case memcpy arr1 (unat new_tail) d 0 (data_size - ucast (tail b)) of
                    None \<Rightarrow> None
                  | Some arr2 \<Rightarrow>
                      Some (ucast data_size, Ptr (b\<lparr>data := arr2, tail := ucast new_tail\<rparr>))))
          else
            (let new_tail = (ucast (ucast (tail b) - data_size) :: uint32_t) in
             case memcpy (data b) (unat new_tail) d 0 data_size of
               None \<Rightarrow> None
             | Some arr \<Rightarrow> Some (ucast data_size, Ptr (b\<lparr>data := arr, tail := new_tail\<rparr>)))
      | _ \<Rightarrow> Some (C_BUFFER_NULL_ERROR, inst))"

definition cBufferPrependUint16 :: "cBuffer_t ptr \<Rightarrow> uint16_t \<Rightarrow> (int32_t \<times> cBuffer_t ptr) option" where
  "cBufferPrependUint16 inst v =
     cBufferPrepend inst (Ptr [ucast (drop_bit 8 v), ucast v]) 2"

definition cBufferPrependUint32 :: "cBuffer_t ptr \<Rightarrow> uint32_t \<Rightarrow> (int32_t \<times> cBuffer_t ptr) option" where
  "cBufferPrependUint32 inst v =
     cBufferPrepend inst
       (Ptr [ucast (drop_bit 24 v), ucast (drop_bit 16 v), ucast (drop_bit 8 v), ucast v]) 4"

definition cBufferPrependByte :: "cBuffer_t ptr \<Rightarrow> uint8_t \<Rightarrow> (int32_t \<times> cBuffer_t ptr) option" where
  "cBufferPrependByte inst v =
     (case inst of
        NULL \<Rightarrow> Some (C_BUFFER_NULL_ERROR, inst)
      | Ptr b \<Rightarrow>
          if (scast (cBufferAvailableForWrite inst) :: size_t) < 1
          then Some (C_BUFFER_INSUFFICIENT, inst)
          else if head b = tail b then
            (let new_tail = (ucast (size_b b - 1) :: uint32_t) in
             case store (data b) (unat new_tail) v of
               None \<Rightarrow> None
             | Some arr \<Rightarrow> Some (1, Ptr (b\<lparr>data := arr, head := 0, tail := new_tail\<rparr>)))
          else if tail b = 0 then
            (let new_tail = (ucast (size_b b - 1) :: uint32_t) in
             case store (data b) (unat new_tail) v of
               None \<Rightarrow> None
             | Some arr \<Rightarrow> Some (1, Ptr (b\<lparr>data := arr, tail := new_tail\<rparr>)))
          else
            (let new_tail = tail b - 1 in
             case store (data b) (unat new_tail) v of
               None \<Rightarrow> None
             | Some arr \<Rightarrow> Some (1, Ptr (b\<lparr>data := arr, tail := new_tail\<rparr>))))"

definition cBufferAppend ::
  "cBuffer_t ptr \<Rightarrow> uint8_t list ptr \<Rightarrow> size_t \<Rightarrow> (int32_t \<times> cBuffer_t ptr) option" where
  "cBufferAppend inst dat data_size =
     (case (inst, dat) of
        (Ptr b, Ptr d) \<Rightarrow>
          if data_size = 0 then Some (C_BUFFER_SUCCESS, inst)
          else if (scast (cBufferAvailableForWrite inst) :: size_t) < data_size
          then Some (C_BUFFER_INSUFFICIENT, inst)
          else if ucast (head b) + data_size > size_b b then
            (case memcpy (data b) (unat (head b)) d 0 (size_b b - ucast (head b)) of
               None \<Rightarrow> None
             | Some arr1 \<Rightarrow>
                 (case memcpy arr1 0 d (unat (size_b b - ucast (head b)))
                         (data_size - (size_b b - ucast (head b))) of
                    None \<Rightarrow> None
                  | Some arr2 \<Rightarrow>
                      Some (ucast data_size,
                            Ptr (b\<lparr>data := arr2,
                                    head := ucast (data_size - (size_b b - ucast (head b)))\<rparr>))))
          else
            (let new_head = ucast (head b) + data_size in
             case memcpy (data b) (unat (head b)) d 0 data_size of
               None \<Rightarrow> None
             | Some arr \<Rightarrow> Some (ucast data_size, Ptr (b\<lparr>data := arr, head := ucast new_head\<rparr>)))
      | _ \<Rightarrow> Some (C_BUFFER_NULL_ERROR, inst))"

definition cBufferAppendByte :: "cBuffer_t ptr \<Rightarrow> uint8_t \<Rightarrow> (int32_t \<times> cBuffer_t ptr) option" where
  "cBufferAppendByte inst v =
     (case inst of
        NULL \<Rightarrow> Some (C_BUFFER_NULL_ERROR, inst)
      | Ptr b \<Rightarrow>
          if (scast (cBufferAvailableForWrite inst) :: size_t) < 1
          then Some (C_BUFFER_INSUFFICIENT, inst)
          else
            (let b1 = (if head b = tail b then b\<lparr>head := 0, tail := 0\<rparr> else b) in
             case store (data b1) (unat (head b1)) v of
               None \<Rightarrow> None
             | Some arr \<Rightarrow>
                 (case MODULO_INC_1 (head b1) (size_b b1) of
                    None \<Rightarrow> None
                  | Some h \<Rightarrow> Some (1, Ptr (b1\<lparr>data := arr, head := ucast h\<rparr>)))))"

section \<open>Reading\<close>

text \<open>
  A read also takes the caller's output array \<open>dat\<close> and returns it as the call leaves it.
\<close>

definition cBufferReadAll ::
  "cBuffer_t ptr \<Rightarrow> uint8_t list ptr \<Rightarrow> size_t \<Rightarrow> (int32_t \<times> cBuffer_t ptr \<times> uint8_t list ptr) option" where
  "cBufferReadAll inst dat max_read_size =
     (case (inst, dat) of
        (Ptr b, Ptr out) \<Rightarrow>
          (let num_bytes_in_buffer = cBufferAvailableForRead inst in
           if sint num_bytes_in_buffer < sint C_BUFFER_SUCCESS
           then Some (num_bytes_in_buffer, inst, dat)
           else if (scast num_bytes_in_buffer :: size_t) > max_read_size
           then Some (C_BUFFER_INSUFFICIENT, inst, dat)
           else if head b < tail b then
             (let bytes_in_first = size_b b - ucast (tail b) in
              case memcpy out 0 (data b) (unat (tail b)) bytes_in_first of
                None \<Rightarrow> None
              | Some out1 \<Rightarrow>
                  (case memcpy out1 (unat bytes_in_first) (data b) 0
                          (scast num_bytes_in_buffer - bytes_in_first) of
                     None \<Rightarrow> None
                   | Some out2 \<Rightarrow>
                       Some (num_bytes_in_buffer, Ptr (b\<lparr>head := 0, tail := 0\<rparr>), Ptr out2)))
           else
             (case memcpy out 0 (data b) (unat (tail b)) (scast num_bytes_in_buffer) of
                None \<Rightarrow> None
              | Some out1 \<Rightarrow>
                  Some (num_bytes_in_buffer, Ptr (b\<lparr>head := 0, tail := 0\<rparr>), Ptr out1)))
      | _ \<Rightarrow> Some (C_BUFFER_NULL_ERROR, inst, dat))"

text \<open>The diagnostic that \<^verbatim>\<open>cBufferReadByte\<close> prints on an empty buffer is not part of the state.\<close>

definition cBufferReadByte :: "cBuffer_t ptr \<Rightarrow> (uint8_t \<times> cBuffer_t ptr) option" where
  "cBufferReadByte inst =
     (case inst of
        NULL \<Rightarrow> Some (0, inst)
      | Ptr b \<Rightarrow>
          if cBufferEmpty inst \<noteq> 0 then Some (0, inst)
          else
            (case load (data b) (unat (tail b)) of
               None \<Rightarrow> None
             | Some v \<Rightarrow>
                 (case MODULO_INC_1 (tail b) (size_b b) of
                    None \<Rightarrow> None
                  | Some t \<Rightarrow> Some (v, Ptr (b\<lparr>tail := ucast t\<rparr>)))))"

definition cBufferReadBytes ::
  "cBuffer_t ptr \<Rightarrow> uint8_t list ptr \<Rightarrow> size_t \<Rightarrow> (int32_t \<times> cBuffer_t ptr \<times> uint8_t list ptr) option" where
  "cBufferReadBytes inst dat read_size =
     (case (inst, dat) of
        (Ptr b, Ptr out) \<Rightarrow>
          (let num_bytes_in_buffer = cBufferAvailableForRead inst in
           if sint num_bytes_in_buffer < sint C_BUFFER_SUCCESS
           then Some (num_bytes_in_buffer, inst, dat)
           else if read_size > (scast num_bytes_in_buffer :: size_t)
           then Some (C_BUFFER_MISMATCH, inst, dat)
           else
             (case
                (if head b < tail b then
                   (let bytes_in_first = size_b b - ucast (tail b) in
                    if read_size \<le> bytes_in_first
                    then memcpy out 0 (data b) (unat (tail b)) bytes_in_first
                    else
                      (case memcpy out 0 (data b) (unat (tail b)) bytes_in_first of
                         None \<Rightarrow> None
                       | Some out1 \<Rightarrow>
                           memcpy out1 (unat bytes_in_first) (data b) 0 (read_size - bytes_in_first)))
                 else memcpy out 0 (data b) (unat (tail b)) read_size)
              of
                None \<Rightarrow> None
              | Some out' \<Rightarrow>
                  (case MODULO_INC (tail b) read_size (size_b b) of
                     None \<Rightarrow> None
                   | Some t \<Rightarrow> Some (ucast read_size, Ptr (b\<lparr>tail := ucast t\<rparr>), Ptr out'))))
      | _ \<Rightarrow> Some (C_BUFFER_NULL_ERROR, inst, dat))"

definition cBufferClear :: "cBuffer_t ptr \<Rightarrow> int32_t \<times> cBuffer_t ptr" where
  "cBufferClear inst =
     (case inst of
        NULL \<Rightarrow> (C_BUFFER_NULL_ERROR, inst)
      | Ptr b \<Rightarrow> (C_BUFFER_SUCCESS, Ptr (b\<lparr>head := 0, tail := 0\<rparr>)))"

section \<open>Contiguation\<close>

text \<open>
  The rotation loop of \<^verbatim>\<open>cBufferContiguate\<close>. The four pointers into the array are their
  indices: \<open>first_element\<close>, \<open>next\<close>, \<open>tail_element\<close> and \<open>last_element\<close>. A swap reads and
  writes both positions, so both must be inside the array.
\<close>

function contiguate_loop :: "nat \<Rightarrow> nat \<Rightarrow> nat \<Rightarrow> nat \<Rightarrow> uint8_t list \<Rightarrow> uint8_t list option" where
  "contiguate_loop first_element next tail_element last_element arr =
     (if first_element = next then Some arr
      else if first_element < length arr \<and> next < length arr then
        (let temp = arr ! first_element;
             arr1 = arr[first_element := arr ! next];
             arr2 = arr1[next := temp];
             first_element' = first_element + 1;
             next' = (if next = last_element then tail_element else next + 1);
             tail_element' = (if first_element' = tail_element then next' else tail_element)
         in contiguate_loop first_element' next' tail_element' last_element arr2)
      else None)"
  by pat_completeness auto
termination
  by (relation "measure (\<lambda>(f, n, t, l, arr). length arr - f)") auto

declare contiguate_loop.simps [simp del]

definition cBufferContiguate :: "cBuffer_t ptr \<Rightarrow> (int32_t \<times> cBuffer_t ptr) option" where
  "cBufferContiguate inst =
     (case inst of
        NULL \<Rightarrow> Some (C_BUFFER_NULL_ERROR, inst)
      | Ptr b \<Rightarrow>
          if cBufferEmpty inst \<noteq> 0 then Some (C_BUFFER_SUCCESS, Ptr (b\<lparr>head := 0, tail := 0\<rparr>))
          else if head b < tail b \<and> head b \<noteq> 0 then
            (let num_of_bytes = cBufferAvailableForRead inst in
             case contiguate_loop 0 (unat (tail b)) (unat (tail b)) (unat (size_b b - 1)) (data b) of
               None \<Rightarrow> None
             | Some arr \<Rightarrow>
                 Some (C_BUFFER_SUCCESS, Ptr (b\<lparr>data := arr, head := num_of_bytes, tail := 0\<rparr>)))
          else Some (C_BUFFER_SUCCESS, inst))"

definition cBufferIsContigous :: "cBuffer_t ptr \<Rightarrow> int32_t" where
  "cBufferIsContigous inst =
     (case inst of
        NULL \<Rightarrow> C_BUFFER_NULL_ERROR
      | Ptr b \<Rightarrow> if head b < tail b \<and> head b \<noteq> 0 then C_BUFFER_WRAPED else C_BUFFER_SUCCESS)"

definition cBufferEmptyWrite :: "cBuffer_t ptr \<Rightarrow> size_t \<Rightarrow> (int32_t \<times> cBuffer_t ptr) option" where
  "cBufferEmptyWrite inst num_bytes =
     (case inst of
        NULL \<Rightarrow> Some (C_BUFFER_NULL_ERROR, inst)
      | Ptr b \<Rightarrow>
          (case MODULO_INC (head b) num_bytes (size_b b) of
             None \<Rightarrow> None
           | Some h \<Rightarrow> Some (ucast num_bytes, Ptr (b\<lparr>head := ucast h\<rparr>))))"

section \<open>Well-formed instances\<close>

text \<open>
  The data model of the specification: the array has \<open>size_b\<close> bytes, there is at least one,
  and both cursors are inside it. Every count is handed back as an \<^verbatim>\<open>int32_t\<close>, so the
  array is no longer than \<^verbatim>\<open>INT32_MAX\<close>.
\<close>

definition cbuf_valid :: "cBuffer_t \<Rightarrow> bool" where
  "cbuf_valid b \<longleftrightarrow>
     0 < size_b b \<and> size_b b \<le> 0x7FFFFFFF \<and> length (data b) = unat (size_b b) \<and>
     ucast (head b) < size_b b \<and> ucast (tail b) < size_b b"

text \<open>
  The instances that the operations themselves leave. When the bytes of a \<^verbatim>\<open>cBufferAppend\<close>
  end exactly at the end of the array, the test \<^verbatim>\<open>head + data_size > size\<close> sends the call
  down the branch that does not wrap, and the write cursor is left at \<open>size_b\<close>, one past the
  last index. So the write cursor of an instance in use is at most \<open>size_b\<close>; the read cursor
  is inside the array.
\<close>

definition cbuf_state :: "cBuffer_t \<Rightarrow> bool" where
  "cbuf_state b \<longleftrightarrow>
     0 < size_b b \<and> size_b b \<le> 0x7FFFFFFF \<and> length (data b) = unat (size_b b) \<and>
     ucast (head b) \<le> size_b b \<and> ucast (tail b) < size_b b"

section \<open>Instances for the examples\<close>

text \<open>
  Ten bytes, the content wraps around the end of the array: the instance that
  \<^verbatim>\<open>cBufferInit\<close>, an append of nine bytes, a read of eight and an append of three leave.
\<close>

definition wrapped10 :: cBuffer_t where
  "wrapped10 = \<lparr>data = [11, 12, 3, 4, 5, 6, 7, 8, 9, 10], size_b = 10, head = 2, tail = 8\<rparr>"

text \<open>The same array, full: nine bytes from index 5 on.\<close>

definition full10 :: cBuffer_t where
  "full10 = \<lparr>data = [11, 12, 3, 4, 5, 6, 7, 8, 9, 10], size_b = 10, head = 4, tail = 5\<rparr>"

text \<open>
  Ten bytes with the write cursor at \<open>size_b\<close>: the instance that \<^verbatim>\<open>cBufferInit\<close>, an append of
  seven bytes, four reads of one byte and an append of three bytes leave (the calls of the
  repository's own test of \<^verbatim>\<open>cBufferContiguate\<close>).
\<close>

definition ended10 :: cBuffer_t where
  "ended10 = \<lparr>data = [1, 2, 3, 4, 5, 6, 7, 8, 9, 10], size_b = 10, head = 10, tail = 4\<rparr>"

text \<open>
  Ten bytes, full, with the write cursor at \<open>size_b\<close>: one byte appended and read again, then
  nine bytes appended.
\<close>

definition brim10 :: cBuffer_t where
  "brim10 = \<lparr>data = [0, 1, 2, 3, 4, 5, 6, 7, 8, 9], size_b = 10, head = 10, tail = 1\<rparr>"

section \<open>The logical content\<close>

text \<open>
  The data model of the specification: the logical content is the run of bytes from the read
  cursor up to the write cursor, walking forward and around the end of the array.
\<close>

definition logical_content :: "cBuffer_t \<Rightarrow> uint8_t list" where
  "logical_content b =
     (if head b < tail b
      then drop (unat (tail b)) (data b) @ take (unat (head b)) (data b)
      else take (unat (head b) - unat (tail b)) (drop (unat (tail b)) (data b)))"

section \<open>Words that hold small natural numbers\<close>

text \<open>
  Below \<open>2 ^ 31\<close> no conversion or operation of the code wraps: the lemmas push the casts
  and the arithmetic through \<open>of_nat\<close>.
\<close>

lemma unat_of_nat64: "k < 2 ^ 64 \<Longrightarrow> unat (of_nat k :: 64 word) = k"
  by (simp add: unat_of_nat)

lemma unat_of_nat32: "k < 2 ^ 32 \<Longrightarrow> unat (of_nat k :: 32 word) = k"
  by (simp add: unat_of_nat)

lemma ucast_up_of_nat: "k < 2 ^ 32 \<Longrightarrow> (ucast (of_nat k :: 32 word) :: 64 word) = of_nat k"
  by (simp add: word_unat_eq_iff unsigned_ucast_eq unsigned_of_nat take_bit_nat_eq_self)

lemma ucast_down_of_nat: "(ucast (of_nat k :: 64 word) :: 32 word) = of_nat k"
  by (simp add: word_unat_eq_iff unsigned_ucast_eq unsigned_of_nat take_bit_nat_eq_self)

lemma sint_of_nat32: "k < 2 ^ 31 \<Longrightarrow> sint (of_nat k :: 32 word) = int k"
  by (simp add: signed_of_nat signed_take_bit_int_eq_self)

lemma scast_of_nat: "k < 2 ^ 31 \<Longrightarrow> (scast (of_nat k :: 32 word) :: 64 word) = of_nat k"
  by (simp add: scast_eq sint_of_nat32)

lemma mod_of_nat64:
  "a < 2 ^ 64 \<Longrightarrow> b < 2 ^ 64 \<Longrightarrow> (of_nat a :: 64 word) mod of_nat b = of_nat (a mod b)"
  by (simp add: word_arith_nat_mod unat_of_nat64)

lemma less_of_nat64:
  "a < 2 ^ 64 \<Longrightarrow> b < 2 ^ 64 \<Longrightarrow> ((of_nat a :: 64 word) < of_nat b) = (a < b)"
  by (simp add: word_of_nat_less_iff take_bit_nat_eq_self)

lemma less_of_nat32:
  "a < 2 ^ 32 \<Longrightarrow> b < 2 ^ 32 \<Longrightarrow> ((of_nat a :: 32 word) < of_nat b) = (a < b)"
  by (simp add: word_of_nat_less_iff take_bit_nat_eq_self)

lemma le_of_nat64:
  "a < 2 ^ 64 \<Longrightarrow> b < 2 ^ 64 \<Longrightarrow> ((of_nat a :: 64 word) \<le> of_nat b) = (a \<le> b)"
  by (simp add: word_of_nat_less_eq_iff take_bit_nat_eq_self)

lemma eq_of_nat64:
  "a < 2 ^ 64 \<Longrightarrow> b < 2 ^ 64 \<Longrightarrow> ((of_nat a :: 64 word) = of_nat b) = (a = b)"
  by (simp add: word_of_nat_eq_iff take_bit_nat_eq_self)

lemma eq_of_nat32:
  "a < 2 ^ 32 \<Longrightarrow> b < 2 ^ 32 \<Longrightarrow> ((of_nat a :: 32 word) = of_nat b) = (a = b)"
  by (simp add: word_of_nat_eq_iff take_bit_nat_eq_self)

lemma eq0_of_nat64: "a < 2 ^ 64 \<Longrightarrow> ((of_nat a :: 64 word) = 0) = (a = 0)"
  using eq_of_nat64 [of a 0] by simp

lemma eq0_of_nat32: "a < 2 ^ 32 \<Longrightarrow> ((of_nat a :: 32 word) = 0) = (a = 0)"
  using eq_of_nat32 [of a 0] by simp

lemma diff_of_nat: "b \<le> a \<Longrightarrow> (of_nat a :: 'a::len word) - of_nat b = of_nat (a - b)"
  by simp

lemma add_of_nat: "(of_nat a :: 'a::len word) + of_nat b = of_nat (a + b)"
  by simp

lemma diff1_of_nat: "1 \<le> a \<Longrightarrow> (of_nat a :: 'a::len word) - 1 = of_nat (a - 1)"
  by simp

lemma add1_of_nat: "(of_nat a :: 'a::len word) + 1 = of_nat (a + 1)"
  by simp

lemmas wnat =
  unat_of_nat64 unat_of_nat32 ucast_up_of_nat ucast_down_of_nat sint_of_nat32 scast_of_nat
  mod_of_nat64 less_of_nat64 less_of_nat32 le_of_nat64 eq_of_nat64 eq_of_nat32
  eq0_of_nat64 eq0_of_nat32 diff_of_nat add_of_nat diff1_of_nat add1_of_nat

lemma one_add_of_nat: "1 + (of_nat a :: 'a::len word) = of_nat (Suc a)"
  by simp

lemma unat_ucast_up: "unat (ucast (w :: 32 word) :: 64 word) = unat w"
proof -
  have "unat w < 2 ^ 64"
    using unsigned_less [of w, where 'a = nat] by simp
  then show ?thesis
    by (simp add: unsigned_ucast_eq take_bit_nat_eq_self)
qed

text \<open>A well-formed instance is the record of its array and three small numbers.\<close>

lemma valid_repr:
  assumes "cbuf_valid b"
  obtains n h t where
    "b = \<lparr>data = data b, size_b = of_nat n, head = of_nat h, tail = of_nat t\<rparr>"
    "0 < n" "n \<le> 2147483647" "h < n" "t < n" "length (data b) = n"
    "n = unat (size_b b)" "h = unat (head b)" "t = unat (tail b)"
proof -
  let ?n = "unat (size_b b)" and ?h = "unat (head b)" and ?t = "unat (tail b)"
  from assms have a: "0 < size_b b" "size_b b \<le> 0x7FFFFFFF" "length (data b) = ?n"
    "ucast (head b) < size_b b" "ucast (tail b) < size_b b"
    by (simp_all add: cbuf_valid_def)
  have "0 < ?n" using a(1) by (simp add: word_less_nat_alt)
  moreover have "?n \<le> 2147483647" using a(2) by (simp add: word_le_nat_alt)
  moreover have "?h < ?n" using a(4) by (simp add: word_less_nat_alt unat_ucast_up)
  moreover have "?t < ?n" using a(5) by (simp add: word_less_nat_alt unat_ucast_up)
  moreover have "b = \<lparr>data = data b, size_b = of_nat ?n, head = of_nat ?h, tail = of_nat ?t\<rparr>"
    by simp
  ultimately show ?thesis using that [of ?n ?h ?t] a(3) by simp
qed

lemma valid_record:
  assumes "cbuf_valid b"
  obtains d n h t where
    "b = \<lparr>data = d, size_b = of_nat n, head = of_nat h, tail = of_nat t\<rparr>"
    "0 < n" "n \<le> 2147483647" "h < n" "t < n" "length d = n"
    "unat (size_b b) = n" "unat (head b) = h" "unat (tail b) = t" "data b = d"
  using valid_repr [OF assms] by metis

lemma valid_nat:
  assumes "0 < n" "n \<le> 2147483647" "h < n" "t < n" "length d = n"
  shows "cbuf_valid \<lparr>data = d, size_b = of_nat n, head = of_nat h, tail = of_nat t\<rparr>"
proof -
  have "(0 :: 64 word) < of_nat n"
    using less_of_nat64 [of 0 n] assms by simp
  moreover have "(of_nat n :: 64 word) \<le> 0x7FFFFFFF"
    using le_of_nat64 [of n 2147483647] assms by simp
  moreover have "unat (of_nat n :: 64 word) = n"
    using assms by (simp add: unat_of_nat64)
  moreover have "(ucast (of_nat h :: 32 word) :: 64 word) < of_nat n"
    "(ucast (of_nat t :: 32 word) :: 64 word) < of_nat n"
    using assms by (simp_all add: ucast_up_of_nat less_of_nat64)
  ultimately show ?thesis
    using assms(5) by (simp add: cbuf_valid_def)
qed

text \<open>The same for an instance whose write cursor may be at \<open>size_b\<close>.\<close>

lemma valid_is_state: "cbuf_valid b \<Longrightarrow> cbuf_state b"
  by (auto simp add: cbuf_valid_def cbuf_state_def intro: less_imp_le)

lemma state_record:
  assumes "cbuf_state b"
  obtains d n h t where
    "b = \<lparr>data = d, size_b = of_nat n, head = of_nat h, tail = of_nat t\<rparr>"
    "0 < n" "n \<le> 2147483647" "h \<le> n" "t < n" "length d = n"
    "unat (size_b b) = n" "unat (head b) = h" "unat (tail b) = t" "data b = d"
proof -
  let ?n = "unat (size_b b)" and ?h = "unat (head b)" and ?t = "unat (tail b)"
  from assms have a: "0 < size_b b" "size_b b \<le> 0x7FFFFFFF" "length (data b) = ?n"
    "ucast (head b) \<le> size_b b" "ucast (tail b) < size_b b"
    by (simp_all add: cbuf_state_def)
  have "0 < ?n" using a(1) by (simp add: word_less_nat_alt)
  moreover have "?n \<le> 2147483647" using a(2) by (simp add: word_le_nat_alt)
  moreover have "?h \<le> ?n" using a(4) by (simp add: word_le_nat_alt unat_ucast_up)
  moreover have "?t < ?n" using a(5) by (simp add: word_less_nat_alt unat_ucast_up)
  moreover have "b = \<lparr>data = data b, size_b = of_nat ?n, head = of_nat ?h, tail = of_nat ?t\<rparr>"
    by simp
  ultimately show ?thesis using that [of "data b" ?n ?h ?t] a(3) by simp
qed

lemma state_valid_or_at_end:
  assumes "cbuf_state b"
  shows "cbuf_valid b \<or> unat (head b) = unat (size_b b)"
proof -
  from assms obtain d n h t where
    r: "b = \<lparr>data = d, size_b = of_nat n, head = of_nat h, tail = of_nat t\<rparr>"
    and bnd: "0 < n" "n \<le> 2147483647" "h \<le> n" "t < n" "length d = n"
    and u: "unat (size_b b) = n" "unat (head b) = h"
    by (rule state_record)
  show ?thesis
  proof (cases "h < n")
    case True
    then have "cbuf_valid b" unfolding r using bnd by (intro valid_nat) simp_all
    then show ?thesis ..
  next
    case False
    then show ?thesis using bnd u by simp
  qed
qed

text \<open>The instances \<open>ended10\<close> and \<open>brim10\<close> are what calls of the API leave.\<close>

lemma ended10_reachable:
  "cBufferInit (Ptr \<lparr>data = [], size_b = 0, head = 0, tail = 0\<rparr>)
       (Ptr [0, 0, 0, 0, 0, 0, 0, 0, 0, 0]) 10
     = (C_BUFFER_SUCCESS,
        Ptr \<lparr>data = [0, 0, 0, 0, 0, 0, 0, 0, 0, 0], size_b = 10, head = 0, tail = 0\<rparr>)"
  "cBufferAppend (Ptr \<lparr>data = [0, 0, 0, 0, 0, 0, 0, 0, 0, 0], size_b = 10, head = 0, tail = 0\<rparr>)
       (Ptr [1, 2, 3, 4, 5, 6, 7]) 7
     = Some (7, Ptr \<lparr>data = [1, 2, 3, 4, 5, 6, 7, 0, 0, 0], size_b = 10, head = 7, tail = 0\<rparr>)"
  "cBufferReadByte (Ptr \<lparr>data = [1, 2, 3, 4, 5, 6, 7, 0, 0, 0], size_b = 10, head = 7, tail = 0\<rparr>)
     = Some (1, Ptr \<lparr>data = [1, 2, 3, 4, 5, 6, 7, 0, 0, 0], size_b = 10, head = 7, tail = 1\<rparr>)"
  "cBufferReadByte (Ptr \<lparr>data = [1, 2, 3, 4, 5, 6, 7, 0, 0, 0], size_b = 10, head = 7, tail = 1\<rparr>)
     = Some (2, Ptr \<lparr>data = [1, 2, 3, 4, 5, 6, 7, 0, 0, 0], size_b = 10, head = 7, tail = 2\<rparr>)"
  "cBufferReadByte (Ptr \<lparr>data = [1, 2, 3, 4, 5, 6, 7, 0, 0, 0], size_b = 10, head = 7, tail = 2\<rparr>)
     = Some (3, Ptr \<lparr>data = [1, 2, 3, 4, 5, 6, 7, 0, 0, 0], size_b = 10, head = 7, tail = 3\<rparr>)"
  "cBufferReadByte (Ptr \<lparr>data = [1, 2, 3, 4, 5, 6, 7, 0, 0, 0], size_b = 10, head = 7, tail = 3\<rparr>)
     = Some (4, Ptr \<lparr>data = [1, 2, 3, 4, 5, 6, 7, 0, 0, 0], size_b = 10, head = 7, tail = 4\<rparr>)"
  "cBufferAppend (Ptr \<lparr>data = [1, 2, 3, 4, 5, 6, 7, 0, 0, 0], size_b = 10, head = 7, tail = 4\<rparr>)
       (Ptr [8, 9, 10]) 3
     = Some (3, Ptr ended10)"
  "cbuf_state ended10" "\<not> cbuf_valid ended10"
  by (simp_all add: cBufferInit_def cBufferAppend_def cBufferReadByte_def cBufferEmpty_def
      cBufferAvailableForWrite_def load_def MODULO_INC_1_def memcpy_def
      C_BUFFER_SUCCESS_def ended10_def cbuf_state_def cbuf_valid_def)

lemma brim10_reachable:
  "cBufferAppendByte (Ptr \<lparr>data = [0, 0, 0, 0, 0, 0, 0, 0, 0, 0], size_b = 10, head = 0, tail = 0\<rparr>) 0
     = Some (1, Ptr \<lparr>data = [0, 0, 0, 0, 0, 0, 0, 0, 0, 0], size_b = 10, head = 1, tail = 0\<rparr>)"
  "cBufferReadByte (Ptr \<lparr>data = [0, 0, 0, 0, 0, 0, 0, 0, 0, 0], size_b = 10, head = 1, tail = 0\<rparr>)
     = Some (0, Ptr \<lparr>data = [0, 0, 0, 0, 0, 0, 0, 0, 0, 0], size_b = 10, head = 1, tail = 1\<rparr>)"
  "cBufferAppend (Ptr \<lparr>data = [0, 0, 0, 0, 0, 0, 0, 0, 0, 0], size_b = 10, head = 1, tail = 1\<rparr>)
       (Ptr [1, 2, 3, 4, 5, 6, 7, 8, 9]) 9
     = Some (9, Ptr brim10)"
  by (simp_all add: cBufferAppend_def cBufferAppendByte_def cBufferReadByte_def cBufferEmpty_def
      cBufferAvailableForWrite_def load_def store_def MODULO_INC_1_def memcpy_def
      C_BUFFER_SUCCESS_def brim10_def)

section \<open>Available space\<close>

lemma avail_read_nat:
  assumes "n \<le> 2147483647" "h \<le> n" "t < n"
  shows "cBufferAvailableForRead (Ptr \<lparr>data = d, size_b = of_nat n, head = of_nat h, tail = of_nat t\<rparr>)
         = of_nat (if h < t then n - t + h else h - t)"
  using assms by (simp add: cBufferAvailableForRead_def wnat del: of_nat_add of_nat_diff)

lemma avail_write_nat:
  assumes "n \<le> 2147483647" "h < n" "t < n"
  shows "cBufferAvailableForWrite (Ptr \<lparr>data = d, size_b = of_nat n, head = of_nat h, tail = of_nat t\<rparr>)
         = of_nat (if h < t then t - h - 1 else n - h + t - 1)"
  using assms by (simp add: cBufferAvailableForWrite_def wnat del: of_nat_add of_nat_diff)

text \<open>Truncation to 32 bits commutes with the sums and differences of the two counts.\<close>

lemma ucast_down_wi32: "(ucast (word_of_int x :: 64 word) :: 32 word) = word_of_int x"
  by (simp add: ucast_down_wi is_down)

lemma ucast_down_add: "(ucast (a + b :: 64 word) :: 32 word) = ucast a + ucast b"
proof -
  have "a + b = word_of_int (uint a + uint b)" by simp
  then have "(ucast (a + b) :: 32 word) = word_of_int (uint a + uint b)"
    by (metis ucast_down_wi32)
  also have "\<dots> = word_of_int (uint a) + word_of_int (uint b)" by simp
  also have "\<dots> = ucast a + ucast b" by (simp only: ucast_eq)
  finally show ?thesis .
qed

lemma ucast_down_diff: "(ucast (a - b :: 64 word) :: 32 word) = ucast a - ucast b"
proof -
  have "a - b = word_of_int (uint a - uint b)" by simp
  then have "(ucast (a - b) :: 32 word) = word_of_int (uint a - uint b)"
    by (metis ucast_down_wi32)
  also have "\<dots> = word_of_int (uint a) - word_of_int (uint b)" by simp
  also have "\<dots> = ucast a - ucast b" by (simp only: ucast_eq)
  finally show ?thesis .
qed

lemma ucast_up_down: "(ucast (ucast (x :: 32 word) :: 64 word) :: 32 word) = x"
  by (simp add: ucast_up_ucast_id is_up)

lemma available_sum_word:
  "cBufferAvailableForRead (Ptr b) + cBufferAvailableForWrite (Ptr b) = ucast (size_b b - 1)"
  by (simp add: cBufferAvailableForRead_def cBufferAvailableForWrite_def ucast_down_add
      ucast_down_diff ucast_up_down)

lemma available_sum_exact:
  assumes "cbuf_valid b"
  shows "0 \<le> sint (cBufferAvailableForRead (Ptr b)) \<and>
         0 \<le> sint (cBufferAvailableForWrite (Ptr b)) \<and>
         sint (cBufferAvailableForRead (Ptr b)) + sint (cBufferAvailableForWrite (Ptr b))
         = uint (size_b b) - 1"
proof -
  from assms obtain n h t where
    r: "b = \<lparr>data = data b, size_b = of_nat n, head = of_nat h, tail = of_nat t\<rparr>"
    and bnd: "0 < n" "n \<le> 2147483647" "h < n" "t < n"
    and u: "n = unat (size_b b)"
    by (rule valid_repr)
  have sz: "uint (size_b b) = int n"
    unfolding u by simp
  have rd: "sint (cBufferAvailableForRead (Ptr b)) = int (if h < t then n - t + h else h - t)"
    using bnd by (subst r) (simp add: avail_read_nat wnat del: of_nat_add of_nat_diff)
  have wr: "sint (cBufferAvailableForWrite (Ptr b)) = int (if h < t then t - h - 1 else n - h + t - 1)"
    using bnd by (subst r) (simp add: avail_write_nat wnat del: of_nat_add of_nat_diff)
  show ?thesis
    unfolding sz rd wr using bnd by (simp del: of_nat_add of_nat_diff) arith
qed

text \<open>
  C4. The bytes available for reading and the bytes available for writing add up to the
  length of the array less one: as the \<^verbatim>\<open>int32_t\<close> values the two functions return, in every
  instance; and as integers, neither count negative, in every instance whose cursors are
  inside an array of at most \<^verbatim>\<open>INT32_MAX\<close> bytes.
\<close>

theorem available_read_plus_write:
  "cBufferAvailableForRead (Ptr b) + cBufferAvailableForWrite (Ptr b) = ucast (size_b b - 1) \<and>
   (cbuf_valid b \<longrightarrow>
      0 \<le> sint (cBufferAvailableForRead (Ptr b)) \<and>
      0 \<le> sint (cBufferAvailableForWrite (Ptr b)) \<and>
      sint (cBufferAvailableForRead (Ptr b)) + sint (cBufferAvailableForWrite (Ptr b))
      = uint (size_b b) - 1)"
  using available_sum_word available_sum_exact by blast

theorem available_read_plus_write_witness:
  "cbuf_valid wrapped10 \<and>
   sint (cBufferAvailableForRead (Ptr wrapped10)) = 4 \<and>
   sint (cBufferAvailableForWrite (Ptr wrapped10)) = 5 \<and>
   sint (cBufferAvailableForRead (Ptr wrapped10)) + sint (cBufferAvailableForWrite (Ptr wrapped10))
   = uint (size_b wrapped10) - 1"
proof -
  have v: "cbuf_valid wrapped10"
    by (simp add: cbuf_valid_def wrapped10_def)
  have e: "sint (cBufferAvailableForRead (Ptr wrapped10)) = 4"
    "sint (cBufferAvailableForWrite (Ptr wrapped10)) = 5"
    by (simp_all add: cBufferAvailableForRead_def cBufferAvailableForWrite_def wrapped10_def)
  show ?thesis
    using v e available_read_plus_write [of wrapped10] by simp
qed

section \<open>Counts and status codes\<close>

lemma word64_repr: "\<exists>k. (w :: 64 word) = of_nat k \<and> k = unat w \<and> k < 2 ^ 64"
  using unsigned_less [of w, where 'a = nat] by simp

lemma avail_write_valid:
  assumes "cbuf_valid b"
  obtains a where "cBufferAvailableForWrite (Ptr b) = of_nat a" "a \<le> 2147483646"
    "a = (if unat (head b) < unat (tail b) then unat (tail b) - unat (head b) - 1
          else unat (size_b b) - unat (head b) + unat (tail b) - 1)"
proof -
  from assms obtain n h t where
    r: "b = \<lparr>data = data b, size_b = of_nat n, head = of_nat h, tail = of_nat t\<rparr>"
    and bnd: "0 < n" "n \<le> 2147483647" "h < n" "t < n"
    and u: "n = unat (size_b b)" "h = unat (head b)" "t = unat (tail b)"
    by (rule valid_repr)
  let ?a = "if h < t then t - h - 1 else n - h + t - 1"
  have "cBufferAvailableForWrite (Ptr b) = of_nat ?a"
    using bnd by (subst r) (rule avail_write_nat, simp_all)
  moreover have "?a \<le> 2147483646" using bnd by auto
  ultimately show ?thesis using that [of ?a] unfolding u by blast
qed

text \<open>A count that passed the space check is small, and comes back as itself.\<close>

lemma count_fits:
  assumes "\<not> (scast (of_nat a :: 32 word) :: 64 word) < k" "a \<le> 2147483646"
  shows "unat k \<le> a"
proof -
  have "(scast (of_nat a :: 32 word) :: 64 word) = of_nat a"
    using assms(2) by (simp add: wnat)
  then have "k \<le> of_nat a" using assms(1) by simp
  then have "unat k \<le> unat (of_nat a :: 64 word)" by (simp add: word_le_nat_alt)
  then show ?thesis using assms(2) by (simp add: wnat)
qed

lemma count_is_no_error:
  assumes "unat (k :: 64 word) \<le> 2147483647"
  shows "sint (ucast k :: 32 word) = int (unat k)"
proof -
  have "(ucast (of_nat (unat k) :: 64 word) :: 32 word) = of_nat (unat k)"
    by (rule ucast_down_of_nat)
  then have e: "(ucast k :: 32 word) = of_nat (unat k)" by simp
  show ?thesis unfolding e by (rule sint_of_nat32) (use assms in simp)
qed

lemma count_not_error:
  assumes "\<not> (scast (of_nat a :: 32 word) :: 64 word) < k" "a \<le> 2147483646"
  shows "(ucast k :: 32 word) \<noteq> C_BUFFER_INSUFFICIENT" "(ucast k :: 32 word) \<noteq> C_BUFFER_MISMATCH"
proof -
  have "unat k \<le> 2147483647" using count_fits [OF assms] assms(2) by simp
  then have "0 \<le> sint (ucast k :: 32 word)" by (simp add: count_is_no_error)
  moreover have "sint C_BUFFER_INSUFFICIENT < 0" "sint C_BUFFER_MISMATCH < 0"
    by (simp_all add: C_BUFFER_INSUFFICIENT_def C_BUFFER_MISMATCH_def)
  ultimately show "(ucast k :: 32 word) \<noteq> C_BUFFER_INSUFFICIENT"
    "(ucast k :: 32 word) \<noteq> C_BUFFER_MISMATCH" by auto
qed

lemma codes_distinct [simp]:
  "C_BUFFER_NULL_ERROR \<noteq> C_BUFFER_INSUFFICIENT" "C_BUFFER_SUCCESS \<noteq> C_BUFFER_INSUFFICIENT"
  "1 \<noteq> C_BUFFER_INSUFFICIENT"
  "C_BUFFER_NULL_ERROR \<noteq> C_BUFFER_MISMATCH" "C_BUFFER_SUCCESS \<noteq> C_BUFFER_MISMATCH"
  by (simp_all add: C_BUFFER_NULL_ERROR_def C_BUFFER_INSUFFICIENT_def C_BUFFER_SUCCESS_def
      C_BUFFER_MISMATCH_def)

section \<open>A refused call changes nothing\<close>

lemma append_insufficient:
  assumes "cbuf_valid b" "cBufferAppend (Ptr b) dat k = Some (C_BUFFER_INSUFFICIENT, i)"
  shows "i = Ptr b"
proof -
  from assms(1) obtain a where a: "cBufferAvailableForWrite (Ptr b) = of_nat a" "a \<le> 2147483646"
    by (rule avail_write_valid)
  show ?thesis
    using assms(2) count_not_error(1) [of a k, OF _ a(2)]
    by (auto simp add: cBufferAppend_def a(1) Let_def split: ptr.splits if_splits option.splits)
qed

lemma prepend_insufficient:
  assumes "cbuf_valid b" "cBufferPrepend (Ptr b) dat k = Some (C_BUFFER_INSUFFICIENT, i)"
  shows "i = Ptr b"
proof -
  from assms(1) obtain a where a: "cBufferAvailableForWrite (Ptr b) = of_nat a" "a \<le> 2147483646"
    by (rule avail_write_valid)
  show ?thesis
    using assms(2) count_not_error(1) [of a k, OF _ a(2)]
    by (auto simp add: cBufferPrepend_def a(1) Let_def split: ptr.splits if_splits option.splits)
qed

text \<open>
  With the write cursor at \<open>size_b\<close>. The free space is one less than the read cursor; with
  the read cursor at 0 the count is \<open>- 1\<close>, which as a \<^verbatim>\<open>size_t\<close> is above every request.
\<close>

lemma avail_write_state_nat:
  assumes "n \<le> 2147483647" "h \<le> n" "t < n" "h < n \<or> 0 < t"
  shows "cBufferAvailableForWrite (Ptr \<lparr>data = d, size_b = of_nat n, head = of_nat h, tail = of_nat t\<rparr>)
         = of_nat (if h < t then t - h - 1 else n - h + t - 1)"
proof (cases "h < n")
  case True
  then show ?thesis using assms by (simp add: avail_write_nat)
next
  case False
  then have "h = n" "1 \<le> t" using assms by simp_all
  then show ?thesis
    using assms by (simp add: cBufferAvailableForWrite_def wnat del: of_nat_add of_nat_diff)
qed

lemma ucast_down_minus1: "(ucast (- 1 :: 64 word) :: 32 word) = - 1"
  using ucast_down_diff [of 0 1] by simp

lemma avail_write_ghost_nat:
  assumes "0 < n" "n \<le> 2147483647"
  shows "cBufferAvailableForWrite (Ptr \<lparr>data = d, size_b = of_nat n, head = of_nat n, tail = 0\<rparr>)
         = - 1"
  using assms
  by (simp add: cBufferAvailableForWrite_def wnat ucast_down_minus1 del: of_nat_add of_nat_diff)

lemma count_fits_max:
  assumes "\<not> (scast (of_nat a :: 32 word) :: 64 word) < k" "a \<le> 2147483647"
  shows "unat k \<le> a"
proof -
  have "(scast (of_nat a :: 32 word) :: 64 word) = of_nat a"
    using assms(2) by (simp add: wnat)
  then have "k \<le> of_nat a" using assms(1) by simp
  then have "unat k \<le> unat (of_nat a :: 64 word)" by (simp add: word_le_nat_alt)
  then show ?thesis using assms(2) by (simp add: wnat)
qed

lemma small_count_not_error:
  assumes "unat (k :: 64 word) \<le> 2147483647"
  shows "(ucast k :: 32 word) \<noteq> C_BUFFER_INSUFFICIENT" "(ucast k :: 32 word) \<noteq> C_BUFFER_MISMATCH"
proof -
  have "0 \<le> sint (ucast k :: 32 word)" using assms by (simp add: count_is_no_error)
  moreover have "sint C_BUFFER_INSUFFICIENT < 0" "sint C_BUFFER_MISMATCH < 0"
    by (simp_all add: C_BUFFER_INSUFFICIENT_def C_BUFFER_MISMATCH_def)
  ultimately show "(ucast k :: 32 word) \<noteq> C_BUFFER_INSUFFICIENT"
    "(ucast k :: 32 word) \<noteq> C_BUFFER_MISMATCH" by auto
qed

lemma append_at_end_nat:
  assumes "0 < n" "n \<le> 2147483647" "t < n" "length d = n"
    and "cBufferAppend (Ptr \<lparr>data = d, size_b = of_nat n, head = of_nat n, tail = of_nat t\<rparr>) dat k
           = Some (C_BUFFER_INSUFFICIENT, i)"
  shows "i = Ptr \<lparr>data = d, size_b = of_nat n, head = of_nat n, tail = of_nat t\<rparr>"
proof -
  have ne: "unat k \<le> n \<Longrightarrow> (ucast k :: 32 word) \<noteq> C_BUFFER_INSUFFICIENT"
    using assms(2) by (intro small_count_not_error(1)) simp
  have c: "(ucast (of_nat n :: 32 word) :: 64 word) = of_nat n" "unat (of_nat n :: 32 word) = n"
    using assms(2) by (simp_all add: wnat)
  show ?thesis
    using assms(1,4,5) ne
    by (auto simp add: cBufferAppend_def memcpy_def c Let_def
        split: ptr.splits if_splits option.splits)
qed

lemma prepend_at_end_nat:
  assumes "0 < n" "n \<le> 2147483647" "t < n" "length d = n"
    and "cBufferPrepend (Ptr \<lparr>data = d, size_b = of_nat n, head = of_nat n, tail = of_nat t\<rparr>) dat k
           = Some (C_BUFFER_INSUFFICIENT, i)"
  shows "i = Ptr \<lparr>data = d, size_b = of_nat n, head = of_nat n, tail = of_nat t\<rparr>"
proof (cases "0 < t")
  case True
  let ?b = "\<lparr>data = d, size_b = of_nat n, head = of_nat n, tail = of_nat t\<rparr>"
  have a: "cBufferAvailableForWrite (Ptr ?b) = of_nat (t - 1)" "t - 1 \<le> 2147483646"
    using assms(1-3) True by (simp_all add: avail_write_state_nat)
  show ?thesis
    using assms(5) count_not_error(1) [of "t - 1" k, OF _ a(2)]
    by (auto simp add: cBufferPrepend_def a(1) Let_def split: ptr.splits if_splits option.splits)
next
  case False
  then have t: "t = 0" by simp
  let ?b = "\<lparr>data = d, size_b = (of_nat n :: size_t), head = (of_nat n :: uint32_t), tail = (0 :: uint32_t)\<rparr>"
  have a: "cBufferAvailableForWrite (Ptr ?b) = - 1"
    using assms(1,2) by (rule avail_write_ghost_nat)
  have ne: "unat k \<le> n \<Longrightarrow> (ucast k :: 32 word) \<noteq> C_BUFFER_INSUFFICIENT"
    using assms(2) by (intro small_count_not_error(1)) simp
  have h0: "(of_nat n :: 32 word) \<noteq> 0"
    using assms(1,2) by (simp add: eq0_of_nat32)
  show ?thesis
    using assms(4,5) ne h0 unfolding t
    by (auto simp add: cBufferPrepend_def a memcpy_def Let_def
        split: ptr.splits if_splits option.splits)
qed

lemma append_state_insufficient:
  assumes "cbuf_state b" "cBufferAppend (Ptr b) dat k = Some (C_BUFFER_INSUFFICIENT, i)"
  shows "i = Ptr b"
proof -
  from assms(1) consider (inside) "cbuf_valid b" | (at_end) "unat (head b) = unat (size_b b)"
    using state_valid_or_at_end by blast
  then show ?thesis
  proof cases
    case inside
    then show ?thesis using assms(2) by (rule append_insufficient)
  next
    case at_end
    from assms(1) obtain d n h t where
      r: "b = \<lparr>data = d, size_b = of_nat n, head = of_nat h, tail = of_nat t\<rparr>"
      and bnd: "0 < n" "n \<le> 2147483647" "t < n" "length d = n"
      and u: "unat (size_b b) = n" "unat (head b) = h"
      by (rule state_record)
    have hn: "h = n" using at_end u by simp
    show ?thesis
      using assms(2) unfolding r hn by (rule append_at_end_nat [OF bnd])
  qed
qed

lemma prepend_state_insufficient:
  assumes "cbuf_state b" "cBufferPrepend (Ptr b) dat k = Some (C_BUFFER_INSUFFICIENT, i)"
  shows "i = Ptr b"
proof -
  from assms(1) consider (inside) "cbuf_valid b" | (at_end) "unat (head b) = unat (size_b b)"
    using state_valid_or_at_end by blast
  then show ?thesis
  proof cases
    case inside
    then show ?thesis using assms(2) by (rule prepend_insufficient)
  next
    case at_end
    from assms(1) obtain d n h t where
      r: "b = \<lparr>data = d, size_b = of_nat n, head = of_nat h, tail = of_nat t\<rparr>"
      and bnd: "0 < n" "n \<le> 2147483647" "t < n" "length d = n"
      and u: "unat (size_b b) = n" "unat (head b) = h"
      by (rule state_record)
    have hn: "h = n" using at_end u by simp
    show ?thesis
      using assms(2) unfolding r hn by (rule prepend_at_end_nat [OF bnd])
  qed
qed

lemma appendByte_insufficient:
  assumes "cBufferAppendByte (Ptr b) v = Some (C_BUFFER_INSUFFICIENT, i)"
  shows "i = Ptr b"
  using assms
  by (auto simp add: cBufferAppendByte_def Let_def split: if_splits option.splits)

lemma prependByte_insufficient:
  assumes "cBufferPrependByte (Ptr b) v = Some (C_BUFFER_INSUFFICIENT, i)"
  shows "i = Ptr b"
  using assms
  by (auto simp add: cBufferPrependByte_def Let_def split: if_splits option.splits)

lemma readAll_insufficient:
  assumes "cBufferReadAll (Ptr b) dat m = Some (C_BUFFER_INSUFFICIENT, i, out)"
  shows "i = Ptr b \<and> out = dat"
  using assms
  by (auto simp add: cBufferReadAll_def Let_def C_BUFFER_INSUFFICIENT_def C_BUFFER_SUCCESS_def
      split: ptr.splits if_splits option.splits)

lemma readBytes_state_mismatch:
  assumes "cbuf_state b" "cBufferReadBytes (Ptr b) dat k = Some (C_BUFFER_MISMATCH, i, out)"
  shows "i = Ptr b \<and> out = dat"
proof -
  from assms(1) obtain d n h t where
    r: "b = \<lparr>data = d, size_b = of_nat n, head = of_nat h, tail = of_nat t\<rparr>"
    and bnd: "0 < n" "n \<le> 2147483647" "h \<le> n" "t < n"
    by (rule state_record)
  define a where "a = (if h < t then n - t + h else h - t)"
  have ab: "a \<le> 2147483647" using bnd by (auto simp: a_def)
  have rd: "cBufferAvailableForRead (Ptr b) = of_nat a"
    unfolding r a_def using bnd by (simp add: avail_read_nat)
  have ne: "\<not> (scast (of_nat a :: 32 word) :: 64 word) < k \<Longrightarrow>
              (ucast k :: 32 word) \<noteq> C_BUFFER_MISMATCH"
  proof -
    assume "\<not> (scast (of_nat a :: 32 word) :: 64 word) < k"
    then have "unat k \<le> a" using ab by (rule count_fits_max)
    then have "unat k \<le> 2147483647" using ab by simp
    then show ?thesis by (rule small_count_not_error(2))
  qed
  show ?thesis
    using assms(2) ne
    by (auto simp add: cBufferReadBytes_def rd Let_def
        split: ptr.splits if_splits option.splits)
qed

text \<open>
  C5. On every instance in use, the write cursor at \<open>size_b\<close> included: when an append, a
  prepend, their one-byte variants or the integer prepend helpers return
  \<^verbatim>\<open>C_BUFFER_INSUFFICIENT\<close>, when \<^verbatim>\<open>cBufferReadBytes\<close> returns \<^verbatim>\<open>C_BUFFER_MISMATCH\<close>, or when
  \<^verbatim>\<open>cBufferReadAll\<close> returns \<^verbatim>\<open>C_BUFFER_INSUFFICIENT\<close>, the instance (both cursors and the
  array) is the one before the call, and a read has left the output array alone.
\<close>

theorem refused_call_changes_nothing:
  assumes "cbuf_state b"
  shows
    "(cBufferAppend (Ptr b) dat k = Some (C_BUFFER_INSUFFICIENT, i1) \<longrightarrow> i1 = Ptr b) \<and>
     (cBufferPrepend (Ptr b) dat k = Some (C_BUFFER_INSUFFICIENT, i2) \<longrightarrow> i2 = Ptr b) \<and>
     (cBufferAppendByte (Ptr b) v8 = Some (C_BUFFER_INSUFFICIENT, i3) \<longrightarrow> i3 = Ptr b) \<and>
     (cBufferPrependByte (Ptr b) v8 = Some (C_BUFFER_INSUFFICIENT, i4) \<longrightarrow> i4 = Ptr b) \<and>
     (cBufferPrependUint16 (Ptr b) v16 = Some (C_BUFFER_INSUFFICIENT, i5) \<longrightarrow> i5 = Ptr b) \<and>
     (cBufferPrependUint32 (Ptr b) v32 = Some (C_BUFFER_INSUFFICIENT, i6) \<longrightarrow> i6 = Ptr b) \<and>
     (cBufferReadBytes (Ptr b) out k = Some (C_BUFFER_MISMATCH, i7, out7) \<longrightarrow>
        i7 = Ptr b \<and> out7 = out) \<and>
     (cBufferReadAll (Ptr b) out k = Some (C_BUFFER_INSUFFICIENT, i8, out8) \<longrightarrow>
        i8 = Ptr b \<and> out8 = out)"
proof -
  have a1: "cBufferAppend (Ptr b) dat k = Some (C_BUFFER_INSUFFICIENT, i1) \<longrightarrow> i1 = Ptr b"
    using assms append_state_insufficient by blast
  have a2: "cBufferPrepend (Ptr b) dat k = Some (C_BUFFER_INSUFFICIENT, i2) \<longrightarrow> i2 = Ptr b"
    using assms prepend_state_insufficient by blast
  have a3: "cBufferAppendByte (Ptr b) v8 = Some (C_BUFFER_INSUFFICIENT, i3) \<longrightarrow> i3 = Ptr b"
    using appendByte_insufficient by blast
  have a4: "cBufferPrependByte (Ptr b) v8 = Some (C_BUFFER_INSUFFICIENT, i4) \<longrightarrow> i4 = Ptr b"
    using prependByte_insufficient by blast
  have a5: "cBufferPrependUint16 (Ptr b) v16 = Some (C_BUFFER_INSUFFICIENT, i5) \<longrightarrow> i5 = Ptr b"
    unfolding cBufferPrependUint16_def using assms prepend_state_insufficient by blast
  have a6: "cBufferPrependUint32 (Ptr b) v32 = Some (C_BUFFER_INSUFFICIENT, i6) \<longrightarrow> i6 = Ptr b"
    unfolding cBufferPrependUint32_def using assms prepend_state_insufficient by blast
  have a7: "cBufferReadBytes (Ptr b) out k = Some (C_BUFFER_MISMATCH, i7, out7) \<longrightarrow>
              i7 = Ptr b \<and> out7 = out"
    using assms readBytes_state_mismatch by blast
  have a8: "cBufferReadAll (Ptr b) out k = Some (C_BUFFER_INSUFFICIENT, i8, out8) \<longrightarrow>
              i8 = Ptr b \<and> out8 = out"
    using readAll_insufficient by blast
  from a1 a2 a3 a4 a5 a6 a7 a8 show ?thesis by (intro conjI)
qed

text \<open>All eight refusals, on a full buffer and on a full buffer whose write cursor is at \<open>size_b\<close>.\<close>

theorem refused_call_changes_nothing_witness:
  "cbuf_state full10 \<and>
   cBufferAppend (Ptr full10) (Ptr [1, 2, 3]) 3 = Some (C_BUFFER_INSUFFICIENT, Ptr full10) \<and>
   cBufferPrepend (Ptr full10) (Ptr [1, 2, 3]) 3 = Some (C_BUFFER_INSUFFICIENT, Ptr full10) \<and>
   cBufferAppendByte (Ptr full10) 1 = Some (C_BUFFER_INSUFFICIENT, Ptr full10) \<and>
   cBufferPrependByte (Ptr full10) 1 = Some (C_BUFFER_INSUFFICIENT, Ptr full10) \<and>
   cBufferPrependUint16 (Ptr full10) 258 = Some (C_BUFFER_INSUFFICIENT, Ptr full10) \<and>
   cBufferPrependUint32 (Ptr full10) 16909060 = Some (C_BUFFER_INSUFFICIENT, Ptr full10) \<and>
   cBufferReadBytes (Ptr full10) (Ptr [0, 0, 0]) 10 = Some (C_BUFFER_MISMATCH, Ptr full10, Ptr [0, 0, 0]) \<and>
   cBufferReadAll (Ptr full10) (Ptr [0, 0, 0]) 3 = Some (C_BUFFER_INSUFFICIENT, Ptr full10, Ptr [0, 0, 0]) \<and>
   cbuf_state brim10 \<and> \<not> cbuf_valid brim10 \<and>
   cBufferAppend (Ptr brim10) (Ptr [1, 2, 3]) 3 = Some (C_BUFFER_INSUFFICIENT, Ptr brim10) \<and>
   cBufferPrepend (Ptr brim10) (Ptr [1, 2, 3]) 3 = Some (C_BUFFER_INSUFFICIENT, Ptr brim10) \<and>
   cBufferAppendByte (Ptr brim10) 1 = Some (C_BUFFER_INSUFFICIENT, Ptr brim10) \<and>
   cBufferPrependByte (Ptr brim10) 1 = Some (C_BUFFER_INSUFFICIENT, Ptr brim10) \<and>
   cBufferPrependUint16 (Ptr brim10) 258 = Some (C_BUFFER_INSUFFICIENT, Ptr brim10) \<and>
   cBufferPrependUint32 (Ptr brim10) 16909060 = Some (C_BUFFER_INSUFFICIENT, Ptr brim10) \<and>
   cBufferReadBytes (Ptr brim10) (Ptr [0, 0, 0]) 10 = Some (C_BUFFER_MISMATCH, Ptr brim10, Ptr [0, 0, 0]) \<and>
   cBufferReadAll (Ptr brim10) (Ptr [0, 0, 0]) 3 = Some (C_BUFFER_INSUFFICIENT, Ptr brim10, Ptr [0, 0, 0])"
proof -
  have v: "cbuf_state full10" "cbuf_state brim10" "\<not> cbuf_valid brim10"
    by (simp_all add: cbuf_state_def cbuf_valid_def full10_def brim10_def)
  have w: "cBufferAvailableForWrite (Ptr full10) = 0" "cBufferAvailableForRead (Ptr full10) = 9"
    "cBufferAvailableForWrite (Ptr brim10) = 0" "cBufferAvailableForRead (Ptr brim10) = 9"
    by (simp_all add: cBufferAvailableForWrite_def cBufferAvailableForRead_def full10_def brim10_def)
  show ?thesis
    using v refused_call_changes_nothing [OF v(1)] refused_call_changes_nothing [OF v(2)]
    by (simp add: cBufferAppend_def cBufferPrepend_def cBufferAppendByte_def cBufferPrependByte_def
        cBufferPrependUint16_def cBufferPrependUint32_def cBufferReadBytes_def cBufferReadAll_def
        w C_BUFFER_SUCCESS_def)
qed

section \<open>Committing a write\<close>

text \<open>
  C10, as the claim words it, at a count above \<^verbatim>\<open>INT32_MAX\<close>: committing \<open>2 ^ 32 - 301\<close> bytes
  on a well-formed instance returns \<open>- 301\<close>, the value of \<^verbatim>\<open>C_BUFFER_NULL_ERROR\<close>, not the count.
\<close>

theorem emptyWrite_large_count:
  "cbuf_valid wrapped10 \<and>
   cBufferEmptyWrite (Ptr wrapped10) 0xFFFFFED3
     = Some (C_BUFFER_NULL_ERROR, Ptr (wrapped10\<lparr>head := 7\<rparr>)) \<and>
   sint C_BUFFER_NULL_ERROR \<noteq> uint (0xFFFFFED3 :: size_t)"
  by (simp add: cbuf_valid_def wrapped10_def cBufferEmptyWrite_def MODULO_INC_def
      C_BUFFER_NULL_ERROR_def)

text \<open>
  C10, amended. On a well-formed instance and for every count up to \<^verbatim>\<open>INT32_MAX\<close>, also one
  above the free space, \<^verbatim>\<open>cBufferEmptyWrite\<close> returns the count, moves the write cursor to
  \<open>(head + n) mod size\<close> and changes neither the read cursor nor the array.
\<close>

theorem emptyWrite_commits:
  assumes "cbuf_valid b" "n \<le> 0x7FFFFFFF"
  shows "\<exists>r h'. cBufferEmptyWrite (Ptr b) n = Some (r, Ptr (b\<lparr>head := h'\<rparr>)) \<and>
           sint r = uint n \<and>
           unat h' = (unat (head b) + unat n) mod unat (size_b b)"
proof -
  from assms(1) obtain s h t where
    r: "b = \<lparr>data = data b, size_b = of_nat s, head = of_nat h, tail = of_nat t\<rparr>"
    and bnd: "0 < s" "s \<le> 2147483647" "h < s" "t < s"
    and u: "s = unat (size_b b)" "h = unat (head b)"
    by (rule valid_repr)
  obtain k where k: "n = of_nat k" "k = unat n" "k < 2 ^ 64"
    using word64_repr by blast
  have kb: "k \<le> 2147483647"
    using assms(2) unfolding k(2) by (simp add: word_le_nat_alt)
  have m: "(h + k) mod s < s" using bnd by simp
  have "cBufferEmptyWrite (Ptr b) n = Some (of_nat k, Ptr (b\<lparr>head := of_nat ((h + k) mod s)\<rparr>))"
    using bnd kb m unfolding k(1)
    by (subst r, subst (2) r)
      (simp add: cBufferEmptyWrite_def MODULO_INC_def wnat del: of_nat_add of_nat_diff)
  moreover have "sint (of_nat k :: 32 word) = uint n"
  proof -
    have "sint (of_nat k :: 32 word) = int k" using kb by (simp add: wnat)
    also have "int k = uint n" unfolding k(2) by simp
    finally show ?thesis .
  qed
  moreover have "unat (of_nat ((h + k) mod s) :: 32 word)
                 = (unat (head b) + unat n) mod unat (size_b b)"
  proof -
    have "s < 2 ^ 32" using bnd by simp
    with m have "(h + k) mod s < 2 ^ 32" by (rule less_trans)
    then have "unat (of_nat ((h + k) mod s) :: 32 word) = (h + k) mod s"
      by (rule unat_of_nat32)
    then show ?thesis unfolding u k(2) .
  qed
  ultimately show ?thesis by blast
qed

text \<open>Twenty bytes are committed where five are free: the write cursor passes the read cursor.\<close>

theorem emptyWrite_commits_witness:
  "cbuf_valid wrapped10 \<and> (20 :: size_t) \<le> 0x7FFFFFFF \<and>
   sint (cBufferAvailableForWrite (Ptr wrapped10)) = 5 \<and>
   cBufferEmptyWrite (Ptr wrapped10) 20 = Some (20, Ptr (wrapped10\<lparr>head := 2\<rparr>))"
proof -
  have v: "cbuf_valid wrapped10"
    by (simp add: cbuf_valid_def wrapped10_def)
  have n: "(20 :: size_t) \<le> 0x7FFFFFFF" by simp
  show ?thesis
    using v n emptyWrite_commits [OF v n]
    by (simp add: wrapped10_def cBufferEmptyWrite_def MODULO_INC_def cBufferAvailableForWrite_def)
qed

section \<open>Reading one byte\<close>

lemma readByte_nat:
  assumes "0 < n" "n \<le> 2147483647" "h \<le> n" "t < n" "length d = n"
  shows "cBufferReadByte (Ptr \<lparr>data = d, size_b = of_nat n, head = of_nat h, tail = of_nat t\<rparr>) =
           (if h = t
            then Some (0, Ptr \<lparr>data = d, size_b = of_nat n, head = of_nat h, tail = of_nat t\<rparr>)
            else Some (d ! t, Ptr \<lparr>data = d, size_b = of_nat n, head = of_nat h,
                                   tail = of_nat (Suc t mod n)\<rparr>))"
  using assms
  by (simp add: cBufferReadByte_def cBufferEmpty_def load_def MODULO_INC_1_def wnat one_add_of_nat
      del: of_nat_add of_nat_diff of_nat_Suc)

text \<open>
  C8. On every instance in use, the write cursor at \<open>size_b\<close> included: on a buffer that is
  not empty, \<^verbatim>\<open>cBufferReadByte\<close> returns the byte under the read cursor and moves the read
  cursor one step on, modulo the length of the array. On an empty buffer it returns \<open>0\<close>,
  which is all it can return, and leaves the instance as it is.
\<close>

theorem readByte_next_or_zero:
  assumes "cbuf_state b"
  shows "cBufferReadByte (Ptr b) =
           (if head b = tail b then Some (0, Ptr b)
            else Some (data b ! unat (tail b),
                       Ptr (b\<lparr>tail := of_nat ((unat (tail b) + 1) mod unat (size_b b))\<rparr>)))"
proof -
  from assms obtain d n h t where
    r: "b = \<lparr>data = d, size_b = of_nat n, head = of_nat h, tail = of_nat t\<rparr>"
    and bnd: "0 < n" "n \<le> 2147483647" "h \<le> n" "t < n" "length d = n"
    and u: "unat (size_b b) = n" "unat (tail b) = t" "data b = d"
    by (rule state_record)
  have e: "(head b = tail b) = (h = t)"
    using bnd by (simp add: r wnat)
  show ?thesis
    unfolding u e unfolding r using bnd by (simp add: readByte_nat)
qed

text \<open>
  A byte is read at the last index, then the buffer is empty and the next read gives 0; and a
  byte is read with the write cursor at \<open>size_b\<close>.
\<close>

theorem readByte_next_or_zero_witness:
  "cbuf_state \<lparr>data = [7, 0, 0, 5], size_b = 4, head = 0, tail = 3\<rparr> \<and>
   cBufferReadByte (Ptr \<lparr>data = [7, 0, 0, 5], size_b = 4, head = 0, tail = 3\<rparr>)
     = Some (5, Ptr \<lparr>data = [7, 0, 0, 5], size_b = 4, head = 0, tail = 0\<rparr>) \<and>
   cbuf_state \<lparr>data = [7, 0, 0, 5], size_b = 4, head = 0, tail = 0\<rparr> \<and>
   cBufferReadByte (Ptr \<lparr>data = [7, 0, 0, 5], size_b = 4, head = 0, tail = 0\<rparr>)
     = Some (0, Ptr \<lparr>data = [7, 0, 0, 5], size_b = 4, head = 0, tail = 0\<rparr>) \<and>
   cbuf_state ended10 \<and>
   cBufferReadByte (Ptr ended10) = Some (5, Ptr (ended10\<lparr>tail := 5\<rparr>))"
proof -
  have v1: "cbuf_state \<lparr>data = [7, 0, 0, 5], size_b = 4, head = 0, tail = 3\<rparr>"
    and v2: "cbuf_state \<lparr>data = [7, 0, 0, 5], size_b = 4, head = 0, tail = 0\<rparr>"
    and v3: "cbuf_state ended10"
    by (simp_all add: cbuf_state_def ended10_def)
  show ?thesis
    using v1 v2 v3 readByte_next_or_zero [OF v1] readByte_next_or_zero [OF v2]
      readByte_next_or_zero [OF v3]
    by (simp add: ended10_def)
qed

section \<open>Reading a given number of bytes\<close>

text \<open>The instance \<open>wrapped10\<close> is what four calls of the API leave.\<close>

lemma wrapped10_reachable:
  "cBufferInit (Ptr \<lparr>data = [], size_b = 0, head = 0, tail = 0\<rparr>)
       (Ptr [0, 0, 0, 0, 0, 0, 0, 0, 0, 0]) 10
     = (C_BUFFER_SUCCESS,
        Ptr \<lparr>data = [0, 0, 0, 0, 0, 0, 0, 0, 0, 0], size_b = 10, head = 0, tail = 0\<rparr>)"
  "cBufferAppend (Ptr \<lparr>data = [0, 0, 0, 0, 0, 0, 0, 0, 0, 0], size_b = 10, head = 0, tail = 0\<rparr>)
       (Ptr [1, 2, 3, 4, 5, 6, 7, 8, 9]) 9
     = Some (9, Ptr \<lparr>data = [1, 2, 3, 4, 5, 6, 7, 8, 9, 0], size_b = 10, head = 9, tail = 0\<rparr>)"
  "cBufferReadBytes (Ptr \<lparr>data = [1, 2, 3, 4, 5, 6, 7, 8, 9, 0], size_b = 10, head = 9, tail = 0\<rparr>)
       (Ptr [0, 0, 0, 0, 0, 0, 0, 0]) 8
     = Some (8, Ptr \<lparr>data = [1, 2, 3, 4, 5, 6, 7, 8, 9, 0], size_b = 10, head = 9, tail = 8\<rparr>,
             Ptr [1, 2, 3, 4, 5, 6, 7, 8])"
  "cBufferAppend (Ptr \<lparr>data = [1, 2, 3, 4, 5, 6, 7, 8, 9, 0], size_b = 10, head = 9, tail = 8\<rparr>)
       (Ptr [10, 11, 12]) 3
     = Some (3, Ptr wrapped10)"
  by (simp_all add: cBufferInit_def cBufferAppend_def cBufferReadBytes_def
      cBufferAvailableForWrite_def cBufferAvailableForRead_def memcpy_def MODULO_INC_def
      C_BUFFER_SUCCESS_def wrapped10_def)

text \<open>
  C2 at \<open>wrapped10\<close>, whose content is the four bytes 9, 10, 11, 12 with two of them before the
  end of the array. A read of one byte into an array of three returns 1 and moves the read
  cursor by one, but writes two bytes: the branch for a request that fits before the end of
  the array copies the whole block up to the end, \<^verbatim>\<open>bytes_in_first\<close> bytes, not \<^verbatim>\<open>read_size\<close>.
  Into an array of one byte the same call writes past the end.
\<close>

theorem readBytes_copies_whole_block:
  "cbuf_valid wrapped10 \<and>
   sint (cBufferAvailableForRead (Ptr wrapped10)) = 4 \<and>
   cBufferReadBytes (Ptr wrapped10) (Ptr [0, 0, 0]) 1
     = Some (1, Ptr (wrapped10\<lparr>tail := 9\<rparr>), Ptr [9, 10, 0]) \<and>
   cBufferReadBytes (Ptr wrapped10) (Ptr [0]) 1 = None"
  by (simp add: cbuf_valid_def cBufferReadBytes_def cBufferAvailableForRead_def memcpy_def
      MODULO_INC_def C_BUFFER_SUCCESS_def wrapped10_def)

text \<open>
  C9 at \<open>wrapped10\<close>, where five bytes are free. The prepend of \<^verbatim>\<open>0x01020304\<close> puts the four
  bytes at the indices 4 to 7. The read of four bytes that follows copies the six bytes up to
  the end of the array: it writes past the end of a four-byte output array. Only an output
  array with room for the whole block receives the four bytes, followed by two more.
\<close>

theorem prependUint32_readBytes_overrun:
  "cbuf_valid wrapped10 \<and>
   sint (cBufferAvailableForWrite (Ptr wrapped10)) = 5 \<and>
   cBufferPrependUint32 (Ptr wrapped10) 0x01020304
     = Some (4, Ptr \<lparr>data = [11, 12, 3, 4, 1, 2, 3, 4, 9, 10], size_b = 10, head = 2, tail = 4\<rparr>) \<and>
   cBufferReadBytes
       (Ptr \<lparr>data = [11, 12, 3, 4, 1, 2, 3, 4, 9, 10], size_b = 10, head = 2, tail = 4\<rparr>)
       (Ptr [0, 0, 0, 0]) 4 = None \<and>
   cBufferReadBytes
       (Ptr \<lparr>data = [11, 12, 3, 4, 1, 2, 3, 4, 9, 10], size_b = 10, head = 2, tail = 4\<rparr>)
       (Ptr [0, 0, 0, 0, 0, 0, 0]) 4
     = Some (4, Ptr \<lparr>data = [11, 12, 3, 4, 1, 2, 3, 4, 9, 10], size_b = 10, head = 2, tail = 8\<rparr>,
             Ptr [1, 2, 3, 4, 9, 10, 0])"
  by (simp add: cbuf_valid_def cBufferReadBytes_def cBufferAvailableForRead_def memcpy_def
      MODULO_INC_def C_BUFFER_SUCCESS_def wrapped10_def cBufferPrependUint32_def
      cBufferPrepend_def cBufferAvailableForWrite_def)

section \<open>Reading everything\<close>

lemma memcpy_nat:
  assumes "k < 2 ^ 64" "dd + k \<le> length dst" "s + k \<le> length src"
  shows "memcpy dst dd src s (of_nat k) = Some (take dd dst @ take k (drop s src) @ drop (dd + k) dst)"
  using assms by (simp add: memcpy_def wnat)

lemma content_nat:
  assumes "n \<le> 2147483647" "h \<le> n" "t < n" "length d = n"
  shows "logical_content \<lparr>data = d, size_b = of_nat n, head = of_nat h, tail = of_nat t\<rparr>
         = (if h < t then drop t d @ take h d else take (h - t) (drop t d))"
  using assms by (simp add: logical_content_def wnat)

lemma readAll_wrapped_nat:
  assumes "n \<le> 2147483647" "h < t" "t < n" "length d = n" "m < 2 ^ 64" "m \<le> length out"
    and "n - t + h \<le> m"
  shows "cBufferReadAll (Ptr \<lparr>data = d, size_b = of_nat n, head = of_nat h, tail = of_nat t\<rparr>)
           (Ptr out) (of_nat m) =
         Some (of_nat (n - t + h), Ptr \<lparr>data = d, size_b = of_nat n, head = 0, tail = 0\<rparr>,
               Ptr (drop t d @ take h d @ drop (n - t + h) out))"
proof -
  have rd: "cBufferAvailableForRead (Ptr \<lparr>data = d, size_b = of_nat n, head = of_nat h, tail = of_nat t\<rparr>)
         = of_nat (n - t + h)"
    using assms(1-3) by (simp add: avail_read_nat)
  have m1: "memcpy out 0 d t (of_nat (n - t)) = Some (drop t d @ drop (n - t) out)"
    using assms by (subst memcpy_nat) simp_all
  have m2: "memcpy (drop t d @ drop (n - t) out) (n - t) d 0 (of_nat h)
                = Some (drop t d @ take h d @ drop (n - t + h) out)"
    using assms by (subst memcpy_nat) (simp_all add: add.commute)
  have e: "(of_nat (n - t + h) :: 64 word) - of_nat (n - t) = of_nat h"
    by simp
  show ?thesis using assms m1 m2 e
    by (simp add: cBufferReadAll_def rd Let_def C_BUFFER_SUCCESS_def wnat del: of_nat_add of_nat_diff)
qed

lemma readAll_straight_nat:
  assumes "n \<le> 2147483647" "t \<le> h" "h \<le> n" "t < n" "length d = n" "m < 2 ^ 64" "m \<le> length out"
    and "h - t \<le> m"
  shows "cBufferReadAll (Ptr \<lparr>data = d, size_b = of_nat n, head = of_nat h, tail = of_nat t\<rparr>)
           (Ptr out) (of_nat m) =
         Some (of_nat (h - t), Ptr \<lparr>data = d, size_b = of_nat n, head = 0, tail = 0\<rparr>,
               Ptr (take (h - t) (drop t d) @ drop (h - t) out))"
proof -
  have rd: "cBufferAvailableForRead (Ptr \<lparr>data = d, size_b = of_nat n, head = of_nat h, tail = of_nat t\<rparr>)
         = of_nat (h - t)"
    using assms(1-4) by (simp add: avail_read_nat)
  have m1: "memcpy out 0 d t (of_nat (h - t)) = Some (take (h - t) (drop t d) @ drop (h - t) out)"
    using assms by (subst memcpy_nat) simp_all
  show ?thesis using assms m1
    by (simp add: cBufferReadAll_def rd Let_def C_BUFFER_SUCCESS_def wnat del: of_nat_add of_nat_diff)
qed

lemma readAll_refuse_nat:
  assumes "n \<le> 2147483647" "h \<le> n" "t < n" "m < 2 ^ 64"
    and "m < (if h < t then n - t + h else h - t)"
  shows "cBufferReadAll (Ptr \<lparr>data = d, size_b = of_nat n, head = of_nat h, tail = of_nat t\<rparr>)
           (Ptr out) (of_nat m) =
         Some (C_BUFFER_INSUFFICIENT,
               Ptr \<lparr>data = d, size_b = of_nat n, head = of_nat h, tail = of_nat t\<rparr>, Ptr out)"
proof -
  define a where "a = (if h < t then n - t + h else h - t)"
  have rd: "cBufferAvailableForRead (Ptr \<lparr>data = d, size_b = of_nat n, head = of_nat h, tail = of_nat t\<rparr>)
         = of_nat a"
    unfolding a_def using assms(1-3) by (rule avail_read_nat)
  have ab: "a \<le> 2147483647" using assms(1-3) by (auto simp: a_def)
  have s: "sint (of_nat a :: 32 word) = int a" using ab by (simp add: sint_of_nat32)
  have c: "(scast (of_nat a :: 32 word) :: 64 word) = of_nat a" using ab by (simp add: scast_of_nat)
  have l: "(of_nat m :: 64 word) < of_nat a"
    using assms(4,5) ab unfolding a_def [symmetric] by (subst less_of_nat64) simp_all
  show ?thesis
    unfolding cBufferReadAll_def rd Let_def using s c l
    by (simp add: C_BUFFER_SUCCESS_def del: of_nat_add of_nat_diff)
qed


text \<open>
  C7. On every instance in use, the write cursor at \<open>size_b\<close> included,
  \<^verbatim>\<open>cBufferReadAll\<close> into an array with room for \<^verbatim>\<open>max_read_size\<close> bytes: the count of
  \<^verbatim>\<open>cBufferAvailableForRead\<close> is the length of the logical content; if it exceeds
  \<^verbatim>\<open>max_read_size\<close> the call returns \<^verbatim>\<open>C_BUFFER_INSUFFICIENT\<close> and changes nothing; otherwise it
  returns that count, puts the logical content at the start of the output array, in order,
  and sets both cursors to 0.
\<close>

theorem readAll_all_or_nothing:
  assumes "cbuf_state b" "unat m \<le> length out"
  shows "sint (cBufferAvailableForRead (Ptr b)) = int (length (logical_content b)) \<and>
         cBufferReadAll (Ptr b) (Ptr out) m =
           (if uint m < sint (cBufferAvailableForRead (Ptr b))
            then Some (C_BUFFER_INSUFFICIENT, Ptr b, Ptr out)
            else Some (cBufferAvailableForRead (Ptr b), Ptr (b\<lparr>head := 0, tail := 0\<rparr>),
                       Ptr (logical_content b @ drop (length (logical_content b)) out)))"
proof -
  from assms(1) obtain d n h t where
    r: "b = \<lparr>data = d, size_b = of_nat n, head = of_nat h, tail = of_nat t\<rparr>"
    and bnd: "0 < n" "n \<le> 2147483647" "h \<le> n" "t < n" "length d = n"
    by (rule state_record)
  obtain k where k: "m = of_nat k" "k = unat m" "k < 2 ^ 64"
    using word64_repr by blast
  have ko: "k \<le> length out" using assms(2) k(2) by simp
  have um: "uint m = int k" unfolding k(2) by simp
  define a where "a = (if h < t then n - t + h else h - t)"
  have ab: "a \<le> 2147483647" using bnd by (auto simp: a_def)
  have rd: "cBufferAvailableForRead (Ptr b) = of_nat a"
    unfolding r a_def using bnd by (simp add: avail_read_nat)
  have srd: "sint (cBufferAvailableForRead (Ptr b)) = int a"
    unfolding rd using ab by (simp add: sint_of_nat32)
  have c: "logical_content b = (if h < t then drop t d @ take h d else take (h - t) (drop t d))"
    unfolding r using bnd by (simp add: content_nat)
  have lc: "length (logical_content b) = a"
    unfolding c a_def using bnd by auto
  have "cBufferReadAll (Ptr b) (Ptr out) m =
           (if k < a
            then Some (C_BUFFER_INSUFFICIENT, Ptr b, Ptr out)
            else Some (of_nat a, Ptr (b\<lparr>head := 0, tail := 0\<rparr>),
                       Ptr (logical_content b @ drop a out)))"
  proof (cases "k < a")
    case True
    then show ?thesis
      unfolding r k(1) a_def using bnd k(3) by (simp add: readAll_refuse_nat)
  next
    case False
    show ?thesis
    proof (cases "h < t")
      case True
      then show ?thesis
        using False bnd k(3) ko unfolding c unfolding r k(1) a_def
        by (simp add: readAll_wrapped_nat)
    next
      case False
      then show ?thesis
        using \<open>\<not> k < a\<close> bnd k(3) ko unfolding c unfolding r k(1) a_def
        by (simp add: readAll_straight_nat)
    qed
  qed
  then show ?thesis
    unfolding srd um lc unfolding rd by simp
qed

text \<open>The wrapped instance, read and refused; and a read with the write cursor at \<open>size_b\<close>.\<close>

theorem readAll_all_or_nothing_witness:
  "cbuf_state wrapped10 \<and> unat (4 :: size_t) \<le> length [0, 0, 0, 0, 0 :: uint8_t] \<and>
   logical_content wrapped10 = [9, 10, 11, 12] \<and>
   cBufferReadAll (Ptr wrapped10) (Ptr [0, 0, 0, 0, 0]) 4
     = Some (4, Ptr (wrapped10\<lparr>head := 0, tail := 0\<rparr>), Ptr [9, 10, 11, 12, 0]) \<and>
   unat (3 :: size_t) \<le> length [0, 0, 0, 0, 0 :: uint8_t] \<and>
   cBufferReadAll (Ptr wrapped10) (Ptr [0, 0, 0, 0, 0]) 3
     = Some (C_BUFFER_INSUFFICIENT, Ptr wrapped10, Ptr [0, 0, 0, 0, 0]) \<and>
   cbuf_state ended10 \<and> unat (6 :: size_t) \<le> length [0, 0, 0, 0, 0, 0, 0 :: uint8_t] \<and>
   logical_content ended10 = [5, 6, 7, 8, 9, 10] \<and>
   cBufferReadAll (Ptr ended10) (Ptr [0, 0, 0, 0, 0, 0, 0]) 6
     = Some (6, Ptr (ended10\<lparr>head := 0, tail := 0\<rparr>), Ptr [5, 6, 7, 8, 9, 10, 0])"
proof -
  have v: "cbuf_state wrapped10" "cbuf_state ended10"
    by (simp_all add: cbuf_state_def wrapped10_def ended10_def)
  have o: "unat (4 :: size_t) \<le> length [0, 0, 0, 0, 0 :: uint8_t]"
    "unat (3 :: size_t) \<le> length [0, 0, 0, 0, 0 :: uint8_t]"
    "unat (6 :: size_t) \<le> length [0, 0, 0, 0, 0, 0, 0 :: uint8_t]"
    by simp_all
  have c: "logical_content wrapped10 = [9, 10, 11, 12]"
    "cBufferAvailableForRead (Ptr wrapped10) = 4"
    "logical_content ended10 = [5, 6, 7, 8, 9, 10]"
    "cBufferAvailableForRead (Ptr ended10) = 6"
    by (simp_all add: logical_content_def cBufferAvailableForRead_def wrapped10_def ended10_def)
  show ?thesis
    using v o readAll_all_or_nothing [OF v(1) o(1)] readAll_all_or_nothing [OF v(1) o(2)]
      readAll_all_or_nothing [OF v(2) o(3)]
    by (simp add: c)
qed

section \<open>Appending\<close>

lemma append_straight_nat:
  assumes "n \<le> 2147483647" "h < n" "t < n" "length d = n"
    and "0 < k" "k \<le> (if h < t then t - h - 1 else n - h + t - 1)" "k \<le> length src"
    and "h + k \<le> n"
  shows "cBufferAppend (Ptr \<lparr>data = d, size_b = of_nat n, head = of_nat h, tail = of_nat t\<rparr>)
           (Ptr src) (of_nat k) =
         Some (of_nat k, Ptr \<lparr>data = take h d @ take k src @ drop (h + k) d, size_b = of_nat n,
                                head = of_nat (h + k), tail = of_nat t\<rparr>)"
proof -
  define a where "a = (if h < t then t - h - 1 else n - h + t - 1)"
  have wr: "cBufferAvailableForWrite (Ptr \<lparr>data = d, size_b = of_nat n, head = of_nat h, tail = of_nat t\<rparr>)
         = of_nat a"
    unfolding a_def using assms(1-3) by (rule avail_write_nat)
  have ab: "a \<le> 2147483646" using assms(1-3) by (auto simp: a_def)
  have ka: "k \<le> a" using assms(6) by (simp add: a_def)
  have c: "(scast (of_nat a :: 32 word) :: 64 word) = of_nat a" using ab by (simp add: scast_of_nat)
  have l: "\<not> (of_nat a :: 64 word) < of_nat k"
    using ka ab by (subst less_of_nat64) simp_all
  have z: "(of_nat k :: 64 word) \<noteq> 0" using assms(5) ka ab by (simp add: eq0_of_nat64)
  have g: "\<not> (of_nat n :: 64 word) < of_nat (h + k)"
    using assms(1,8) by (subst less_of_nat64) simp_all
  have m1: "memcpy d h src 0 (of_nat k) = Some (take h d @ take k src @ drop (h + k) d)"
    using assms ka ab by (subst memcpy_nat) simp_all
  have u: "unat (of_nat h :: 32 word) = h" "(ucast (of_nat h :: 32 word) :: 64 word) = of_nat h"
    using assms(1,2) by (simp_all add: wnat)
  show ?thesis
    unfolding cBufferAppend_def wr Let_def using c l z g m1 u
    by (simp add: ucast_down_of_nat add_of_nat del: of_nat_add of_nat_diff)
qed

lemma append_wrapped_nat:
  assumes "n \<le> 2147483647" "h < n" "t < n" "length d = n"
    and "0 < k" "k \<le> (if h < t then t - h - 1 else n - h + t - 1)" "k \<le> length src"
    and "n < h + k"
  shows "cBufferAppend (Ptr \<lparr>data = d, size_b = of_nat n, head = of_nat h, tail = of_nat t\<rparr>)
           (Ptr src) (of_nat k) =
         Some (of_nat k,
               Ptr \<lparr>data = take (k - (n - h)) (drop (n - h) src) @
                            drop (k - (n - h)) (take h d @ take (n - h) src),
                     size_b = of_nat n, head = of_nat (k - (n - h)), tail = of_nat t\<rparr>)"
proof -
  define a where "a = (if h < t then t - h - 1 else n - h + t - 1)"
  have wr: "cBufferAvailableForWrite (Ptr \<lparr>data = d, size_b = of_nat n, head = of_nat h, tail = of_nat t\<rparr>)
         = of_nat a"
    unfolding a_def using assms(1-3) by (rule avail_write_nat)
  have ab: "a \<le> 2147483646" using assms(1-3) by (auto simp: a_def)
  have ka: "k \<le> a" using assms(6) by (simp add: a_def)
  have c: "(scast (of_nat a :: 32 word) :: 64 word) = of_nat a" using ab by (simp add: scast_of_nat)
  have l: "\<not> (of_nat a :: 64 word) < of_nat k"
    using ka ab by (subst less_of_nat64) simp_all
  have z: "(of_nat k :: 64 word) \<noteq> 0" using assms(5) ka ab by (simp add: eq0_of_nat64)
  have g: "(of_nat n :: 64 word) < of_nat (h + k)"
    using assms(1,2,8) ka ab by (subst less_of_nat64) simp_all
  have m1: "memcpy d h src 0 (of_nat (n - h)) = Some (take h d @ take (n - h) src)"
    using assms ka ab by (subst memcpy_nat) simp_all
  have kn: "k < n" using assms(2,3,6) by (auto split: if_splits)
  have m2: "memcpy (take h d @ take (n - h) src) 0 src (n - h) (of_nat (k - (n - h)))
            = Some (take (k - (n - h)) (drop (n - h) src) @
                            drop (k - (n - h)) (take h d @ take (n - h) src))"
    using assms(1-5,7,8) kn by (subst memcpy_nat) simp_all
  have u: "unat (of_nat h :: 32 word) = h" "(ucast (of_nat h :: 32 word) :: 64 word) = of_nat h"
    "unat (of_nat (n - h) :: 64 word) = n - h"
    using assms(1,2) by (simp_all add: unat_of_nat64 unat_of_nat32 ucast_up_of_nat del: of_nat_diff)
  have d1: "(of_nat n :: 64 word) - of_nat h = of_nat (n - h)"
    using assms(2) by (intro diff_of_nat) simp
  have d2: "(of_nat k :: 64 word) - of_nat (n - h) = of_nat (k - (n - h))"
    using assms(2,8) by (intro diff_of_nat) simp
  have g': "of_nat n < (of_nat h :: 64 word) + of_nat k" using g by simp
  show ?thesis
    unfolding cBufferAppend_def wr Let_def 
    by (simp add: z c l g' u d1 d2 m1 m2 ucast_down_of_nat del: of_nat_add of_nat_diff)
qed

text \<open>
  The straight branch is also taken when the bytes end exactly at the end of the array, and
  then leaves the write cursor at the length of the array, not at 0. The lemmas on
  \<^verbatim>\<open>cBufferReadAll\<close> above therefore allow a write cursor \<open>h = n\<close>.
\<close>

lemma append_up_to_the_end:
  "cBufferAppend (Ptr \<lparr>data = [0, 0, 0, 0, 0], size_b = 5, head = 3, tail = 3\<rparr>) (Ptr [1, 2]) 2
   = Some (2, Ptr \<lparr>data = [0, 0, 0, 1, 2], size_b = 5, head = 5, tail = 3\<rparr>)"
  by (simp add: cBufferAppend_def cBufferAvailableForWrite_def memcpy_def)

text \<open>
  C1. On an empty buffer, an append of a byte sequence \<open>S\<close> that is no longer than the array
  less one returns the length of \<open>S\<close>, and a \<^verbatim>\<open>cBufferReadAll\<close> that follows, with
  \<^verbatim>\<open>max_read_size\<close> at least that length, returns the length of \<open>S\<close> and puts the bytes of \<open>S\<close>,
  in order, at the start of the output array.
\<close>

theorem append_readAll_identity:
  assumes "cbuf_valid b" "head b = tail b" "length S \<le> unat (size_b b) - 1"
    and "length S \<le> unat m" "unat m \<le> length out"
  shows "\<exists>r b' r' b''.
           cBufferAppend (Ptr b) (Ptr S) (of_nat (length S)) = Some (r, Ptr b') \<and>
           sint r = int (length S) \<and>
           cBufferReadAll (Ptr b') (Ptr out) m = Some (r', Ptr b'', Ptr (S @ drop (length S) out)) \<and>
           sint r' = int (length S)"
proof -
  from assms(1) obtain d n h t where
    r: "b = \<lparr>data = d, size_b = of_nat n, head = of_nat h, tail = of_nat t\<rparr>"
    and bnd: "0 < n" "n \<le> 2147483647" "h < n" "t < n" "length d = n"
    and u: "unat (size_b b) = n" "unat (head b) = h" "unat (tail b) = t"
    by (rule valid_record)
  have ht: "h = t" using assms(2) u by metis
  obtain j where j: "m = of_nat j" "j = unat m" "j < 2 ^ 64"
    using word64_repr by blast
  define k where "k = length S"
  have ls: "length S = k" by (simp add: k_def)
  have kn: "k \<le> n - 1" using assms(3) u by (simp add: k_def)
  have kj: "k \<le> j" "j \<le> length out" using assms(4,5) j(2) by (simp_all add: k_def)
  have sk: "sint (of_nat k :: 32 word) = int k" using kn bnd by (simp add: sint_of_nat32)
  consider (zero) "k = 0" | (straight) "0 < k" "h + k \<le> n" | (wrapped) "0 < k" "n < h + k"
    by linarith
  then have "\<exists>b' b''.
           cBufferAppend (Ptr b) (Ptr S) (of_nat k) = Some (of_nat k, Ptr b') \<and>
           cBufferReadAll (Ptr b') (Ptr out) m = Some (of_nat k, Ptr b'', Ptr (S @ drop k out))"
  proof cases
    case zero
    have "cBufferAppend (Ptr b) (Ptr S) (of_nat k) = Some (of_nat k, Ptr b)"
      using zero by (simp add: cBufferAppend_def C_BUFFER_SUCCESS_def)
    moreover have "cBufferReadAll (Ptr b) (Ptr out) m
       = Some (of_nat (h - t), Ptr \<lparr>data = d, size_b = of_nat n, head = 0, tail = 0\<rparr>,
               Ptr (take (h - t) (drop t d) @ drop (h - t) out))"
      unfolding r j(1) by (rule readAll_straight_nat) (use bnd ht zero j(3) kj in simp_all)
    ultimately show ?thesis using zero ht ls by simp
  next
    case straight
    let ?d = "take h d @ take k S @ drop (h + k) d"
    have "cBufferAppend (Ptr b) (Ptr S) (of_nat k)
          = Some (of_nat k, Ptr \<lparr>data = ?d, size_b = of_nat n, head = of_nat (h + k), tail = of_nat t\<rparr>)"
      unfolding r by (rule append_straight_nat) (use bnd ht straight kn ls in simp_all)
    moreover have "cBufferReadAll (Ptr \<lparr>data = ?d, size_b = of_nat n, head = of_nat (h + k), tail = of_nat t\<rparr>) (Ptr out) m
       = Some (of_nat (h + k - t), Ptr \<lparr>data = ?d, size_b = of_nat n, head = 0, tail = 0\<rparr>,
               Ptr (take (h + k - t) (drop t ?d) @ drop (h + k - t) out))"
      unfolding j(1) by (rule readAll_straight_nat) (use bnd ht straight j(3) kj ls in simp_all)
    moreover have "take (h + k - t) (drop t ?d) = S"
      using bnd ht straight ls by simp
    ultimately show ?thesis using ht by simp
  next
    case wrapped
    define h' where "h' = k - (n - h)"
    define d' where "d' = take h' (drop (n - h) S) @ drop h' (take h d @ take (n - h) S)"
    have hh: "h' < t" using wrapped kn ht bnd unfolding h'_def by linarith
    have ld: "length d' = n" using bnd wrapped kn ls by (simp add: d'_def h'_def)
    have ap: "cBufferAppend (Ptr b) (Ptr S) (of_nat k)
          = Some (of_nat k, Ptr \<lparr>data = d', size_b = of_nat n, head = of_nat h', tail = of_nat t\<rparr>)"
      unfolding r d'_def h'_def
      by (rule append_wrapped_nat) (use bnd ht wrapped kn ls in simp_all)
    have "n - t + h' \<le> j" using kj(1) wrapped ht bnd unfolding h'_def by linarith
    with bnd(2) hh bnd(4) ld j(3) kj(2)
    have "cBufferReadAll (Ptr \<lparr>data = d', size_b = of_nat n, head = of_nat h', tail = of_nat t\<rparr>)
            (Ptr out) (of_nat j)
       = Some (of_nat (n - t + h'), Ptr \<lparr>data = d', size_b = of_nat n, head = 0, tail = 0\<rparr>,
               Ptr (drop t d' @ take h' d' @ drop (n - t + h') out))"
      by (rule readAll_wrapped_nat)
    moreover have "n - t + h' = k" using wrapped ht bnd unfolding h'_def by linarith
    moreover have "drop t d' = take (n - h) S"
      using bnd ht wrapped ls kn by (simp add: d'_def h'_def)
    moreover have "take h' d' = drop (n - h) S"
      using bnd ht wrapped ls kn by (simp add: d'_def h'_def)
    ultimately have "cBufferReadAll (Ptr \<lparr>data = d', size_b = of_nat n, head = of_nat h', tail = of_nat t\<rparr>)
            (Ptr out) m
       = Some (of_nat k, Ptr \<lparr>data = d', size_b = of_nat n, head = 0, tail = 0\<rparr>, Ptr (S @ drop k out))"
      unfolding j(1) by simp
    with ap show ?thesis by blast
  qed
  then show ?thesis using sk unfolding k_def by blast
qed

text \<open>Four bytes appended at index 3 of five: two go to the end of the array, two to its start.\<close>

theorem append_readAll_identity_witness:
  "cbuf_valid \<lparr>data = [0, 0, 0, 0, 0], size_b = 5, head = 3, tail = 3\<rparr> \<and>
   length [1, 2, 3, 4 :: uint8_t] \<le> unat (5 :: size_t) - 1 \<and>
   length [1, 2, 3, 4 :: uint8_t] \<le> unat (4 :: size_t) \<and>
   unat (4 :: size_t) \<le> length [0, 0, 0, 0, 0 :: uint8_t] \<and>
   cBufferAppend (Ptr \<lparr>data = [0, 0, 0, 0, 0], size_b = 5, head = 3, tail = 3\<rparr>)
       (Ptr [1, 2, 3, 4]) 4
     = Some (4, Ptr \<lparr>data = [3, 4, 0, 1, 2], size_b = 5, head = 2, tail = 3\<rparr>) \<and>
   cBufferReadAll (Ptr \<lparr>data = [3, 4, 0, 1, 2], size_b = 5, head = 2, tail = 3\<rparr>)
       (Ptr [0, 0, 0, 0, 0]) 4
     = Some (4, Ptr \<lparr>data = [3, 4, 0, 1, 2], size_b = 5, head = 0, tail = 0\<rparr>,
             Ptr [1, 2, 3, 4, 0])"
proof -
  let ?e = "\<lparr>data = [0, 0, 0, 0, 0], size_b = 5, head = 3, tail = (3 :: uint32_t)\<rparr>"
  have v: "cbuf_valid ?e"
    by (simp add: cbuf_valid_def)
  have e: "head ?e = tail ?e" by simp
  have l: "length [1, 2, 3, 4 :: uint8_t] \<le> unat (size_b ?e) - 1"
    "length [1, 2, 3, 4 :: uint8_t] \<le> unat (4 :: size_t)"
    "unat (4 :: size_t) \<le> length [0, 0, 0, 0, 0 :: uint8_t]"
    by simp_all
  have w: "cBufferAvailableForWrite (Ptr ?e) = 4"
    "cBufferAvailableForRead (Ptr \<lparr>data = [3, 4, 0, 1, 2], size_b = 5, head = 2, tail = 3\<rparr>) = 4"
    by (simp_all add: cBufferAvailableForWrite_def cBufferAvailableForRead_def)
  show ?thesis
    using v l append_readAll_identity [OF v e l]
    by (simp add: cBufferAppend_def cBufferReadAll_def w memcpy_def C_BUFFER_SUCCESS_def)
qed

section \<open>Prepending\<close>

lemma prepend_empty_nat:
  assumes "n \<le> 2147483647" "h < n" "length d = n"
    and "0 < k" "k \<le> n - 1" "k \<le> length src"
  shows "cBufferPrepend (Ptr \<lparr>data = d, size_b = of_nat n, head = of_nat h, tail = of_nat h\<rparr>)
           (Ptr src) (of_nat k) =
         Some (of_nat k, Ptr \<lparr>data = take (n - k) d @ take k src, size_b = of_nat n,
                                head = 0, tail = of_nat (n - k)\<rparr>)"
proof -
  define a where "a = n - 1"
  have wr: "cBufferAvailableForWrite (Ptr \<lparr>data = d, size_b = of_nat n, head = of_nat h, tail = of_nat h\<rparr>)
         = of_nat a"
    using avail_write_nat [OF assms(1,2,2), of d] assms(2) by (simp add: a_def)
  have ab: "a \<le> 2147483646" "k \<le> a" using assms(1,5) by (simp_all add: a_def)
  have c: "(scast (of_nat a :: 32 word) :: 64 word) = of_nat a"
    using ab by (intro scast_of_nat) simp
  have l: "\<not> (of_nat a :: 64 word) < of_nat k"
    using ab by (subst less_of_nat64) simp_all
  have z: "(of_nat k :: 64 word) \<noteq> 0" using assms(1,4,5) by (simp add: eq0_of_nat64)
  have d1: "(of_nat n :: 64 word) - of_nat k = of_nat (n - k)"
    using assms(5) by (intro diff_of_nat) simp
  have u: "unat (of_nat (n - k) :: 32 word) = n - k"
    using assms(1) by (intro unat_of_nat32) simp
  have m1: "memcpy d (n - k) src 0 (of_nat k) = Some (take (n - k) d @ take k src)"
    using assms by (subst memcpy_nat) simp_all
  show ?thesis
    unfolding cBufferPrepend_def wr Let_def
    by (simp add: z c l d1 u m1 ucast_down_of_nat del: of_nat_add of_nat_diff)
qed

text \<open>
  C6. On an empty buffer, a prepend of a byte sequence \<open>S\<close> that is no longer than the array
  less one returns the length of \<open>S\<close>, and a \<^verbatim>\<open>cBufferReadAll\<close> that follows, with
  \<^verbatim>\<open>max_read_size\<close> at least that length, returns the length of \<open>S\<close> and yields \<open>S\<close> in order.
\<close>

theorem prepend_readAll_identity:
  assumes "cbuf_valid b" "head b = tail b" "length S \<le> unat (size_b b) - 1"
    and "length S \<le> unat m" "unat m \<le> length out"
  shows "\<exists>r b' r' b''.
           cBufferPrepend (Ptr b) (Ptr S) (of_nat (length S)) = Some (r, Ptr b') \<and>
           sint r = int (length S) \<and>
           cBufferReadAll (Ptr b') (Ptr out) m = Some (r', Ptr b'', Ptr (S @ drop (length S) out)) \<and>
           sint r' = int (length S)"
proof -
  from assms(1) obtain d n h t where
    r: "b = \<lparr>data = d, size_b = of_nat n, head = of_nat h, tail = of_nat t\<rparr>"
    and bnd: "0 < n" "n \<le> 2147483647" "h < n" "t < n" "length d = n"
    and u: "unat (size_b b) = n" "unat (head b) = h" "unat (tail b) = t"
    by (rule valid_record)
  have ht: "h = t" using assms(2) u by metis
  obtain j where j: "m = of_nat j" "j = unat m" "j < 2 ^ 64"
    using word64_repr by blast
  define k where "k = length S"
  have ls: "length S = k" by (simp add: k_def)
  have kn: "k \<le> n - 1" using assms(3) u by (simp add: k_def)
  have kj: "k \<le> j" "j \<le> length out" using assms(4,5) j(2) by (simp_all add: k_def)
  have sk: "sint (of_nat k :: 32 word) = int k" using kn bnd by (simp add: sint_of_nat32)
  have "\<exists>b' b''.
           cBufferPrepend (Ptr b) (Ptr S) (of_nat k) = Some (of_nat k, Ptr b') \<and>
           cBufferReadAll (Ptr b') (Ptr out) m = Some (of_nat k, Ptr b'', Ptr (S @ drop k out))"
  proof (cases "k = 0")
    case True
    have "cBufferPrepend (Ptr b) (Ptr S) (of_nat k) = Some (of_nat k, Ptr b)"
      using True by (simp add: cBufferPrepend_def C_BUFFER_SUCCESS_def)
    moreover have "cBufferReadAll (Ptr b) (Ptr out) m
       = Some (of_nat (h - t), Ptr \<lparr>data = d, size_b = of_nat n, head = 0, tail = 0\<rparr>,
               Ptr (take (h - t) (drop t d) @ drop (h - t) out))"
      unfolding r j(1) by (rule readAll_straight_nat) (use bnd ht True j(3) kj in simp_all)
    ultimately show ?thesis using True ht ls by simp
  next
    case False
    define d' where "d' = take (n - k) d @ take k S"
    have ld: "length d' = n" using bnd kn ls by (simp add: d'_def)
    have t': "n - k < n" "0 < n - k" using False kn bnd by linarith+
    have ap: "cBufferPrepend (Ptr b) (Ptr S) (of_nat k)
          = Some (of_nat k, Ptr \<lparr>data = d', size_b = of_nat n, head = of_nat 0, tail = of_nat (n - k)\<rparr>)"
      unfolding r d'_def ht [symmetric]
      using prepend_empty_nat [of n h d k S] bnd False kn ls by simp
    have "n - (n - k) + 0 \<le> j" using kj(1) kn bnd by linarith
    with bnd(2) t'(2) t'(1) ld j(3) kj(2)
    have "cBufferReadAll (Ptr \<lparr>data = d', size_b = of_nat n, head = of_nat 0, tail = of_nat (n - k)\<rparr>)
            (Ptr out) (of_nat j)
       = Some (of_nat (n - (n - k) + 0), Ptr \<lparr>data = d', size_b = of_nat n, head = 0, tail = 0\<rparr>,
               Ptr (drop (n - k) d' @ take 0 d' @ drop (n - (n - k) + 0) out))"
      by (rule readAll_wrapped_nat)
    moreover have "n - (n - k) + 0 = k" using kn bnd by linarith
    moreover have "drop (n - k) d' = S"
      using bnd ls kn by (simp add: d'_def)
    ultimately have "cBufferReadAll (Ptr \<lparr>data = d', size_b = of_nat n, head = of_nat 0, tail = of_nat (n - k)\<rparr>)
            (Ptr out) m
       = Some (of_nat k, Ptr \<lparr>data = d', size_b = of_nat n, head = 0, tail = 0\<rparr>, Ptr (S @ drop k out))"
      unfolding j(1) by simp
    with ap show ?thesis by blast
  qed
  then show ?thesis using sk unfolding k_def by blast
qed

text \<open>Three bytes prepended to an empty buffer of five go to the end of the array.\<close>

theorem prepend_readAll_identity_witness:
  "cbuf_valid \<lparr>data = [0, 0, 0, 0, 0], size_b = 5, head = 3, tail = 3\<rparr> \<and>
   length [1, 2, 3 :: uint8_t] \<le> unat (5 :: size_t) - 1 \<and>
   length [1, 2, 3 :: uint8_t] \<le> unat (5 :: size_t) \<and>
   unat (5 :: size_t) \<le> length [0, 0, 0, 0, 0 :: uint8_t] \<and>
   cBufferPrepend (Ptr \<lparr>data = [0, 0, 0, 0, 0], size_b = 5, head = 3, tail = 3\<rparr>)
       (Ptr [1, 2, 3]) 3
     = Some (3, Ptr \<lparr>data = [0, 0, 1, 2, 3], size_b = 5, head = 0, tail = 2\<rparr>) \<and>
   cBufferReadAll (Ptr \<lparr>data = [0, 0, 1, 2, 3], size_b = 5, head = 0, tail = 2\<rparr>)
       (Ptr [0, 0, 0, 0, 0]) 5
     = Some (3, Ptr \<lparr>data = [0, 0, 1, 2, 3], size_b = 5, head = 0, tail = 0\<rparr>,
             Ptr [1, 2, 3, 0, 0])"
proof -
  let ?e = "\<lparr>data = [0, 0, 0, 0, 0], size_b = 5, head = 3, tail = (3 :: uint32_t)\<rparr>"
  have v: "cbuf_valid ?e"
    by (simp add: cbuf_valid_def)
  have e: "head ?e = tail ?e" by simp
  have l: "length [1, 2, 3 :: uint8_t] \<le> unat (size_b ?e) - 1"
    "length [1, 2, 3 :: uint8_t] \<le> unat (5 :: size_t)"
    "unat (5 :: size_t) \<le> length [0, 0, 0, 0, 0 :: uint8_t]"
    by simp_all
  have w: "cBufferAvailableForWrite (Ptr ?e) = 4"
    "cBufferAvailableForRead (Ptr \<lparr>data = [0, 0, 1, 2, 3], size_b = 5, head = 0, tail = 2\<rparr>) = 3"
    by (simp_all add: cBufferAvailableForWrite_def cBufferAvailableForRead_def)
  show ?thesis
    using v l prepend_readAll_identity [OF v e l]
    by (simp add: cBufferPrepend_def cBufferReadAll_def w memcpy_def C_BUFFER_SUCCESS_def)
qed

section \<open>The rotation of cBufferContiguate\<close>

text \<open>
  One pass of the loop body on an array cut into four blocks: the finished prefix \<open>P\<close>, the
  block \<open>x # X\<close> from \<open>first_element\<close> up to \<open>tail_element\<close>, the block \<open>Y\<close> up to \<open>next\<close> and
  the rest \<open>z # Z\<close>. The loop turns \<open>P @ (x # X) @ Y @ (z # Z)\<close> into \<open>P @ (z # Z) @ Y @ (x # X)\<close>.
\<close>

lemma swap_blocks:
  "(P @ x # X @ Y @ z # Z)[length P := z, Suc (length P + length X + length Y) := x]
   = P @ z # X @ Y @ x # Z"
proof -
  have "(P @ x # X @ Y @ z # Z)[length P := z] = P @ z # (X @ Y @ z # Z)"
    by (simp add: list_update_append)
  moreover have "(P @ z # (X @ Y) @ z # Z)[length (P @ z # (X @ Y)) := x] = (P @ z # (X @ Y)) @ x # Z"
    by (metis append.assoc append_Cons list_update_length)
  ultimately show ?thesis by (simp add: add.assoc)
qed

lemma contiguate_loop_step:
  "contiguate_loop (length P) (Suc (length P + length X + length Y)) (Suc (length P + length X)) l
     (P @ x # X @ Y @ z # Z)
   = contiguate_loop (Suc (length P))
       (if Suc (length P + length X + length Y) = l then Suc (length P + length X)
        else Suc (Suc (length P + length X + length Y)))
       (if X = [] then
          (if Suc (length P + length X + length Y) = l then Suc (length P + length X)
           else Suc (Suc (length P + length X + length Y)))
        else Suc (length P + length X))
       l (P @ z # X @ Y @ x # Z)"
proof -
  have n1: "(P @ x # X @ Y @ z # Z) ! length P = x" by simp
  have n2: "(P @ x # X @ Y @ z # Z) ! Suc (length P + length X + length Y) = z"
    by (metis (no_types, lifting) add_Suc_right append.assoc append_Cons length_Cons length_append nth_append_length)
  have c1: "length P \<noteq> Suc (length P + length X + length Y)" by simp
  have c2: "length P < length (P @ x # X @ Y @ z # Z) \<and>
            Suc (length P + length X + length Y) < length (P @ x # X @ Y @ z # Z)" by simp
  have c3: "(length P + 1 = Suc (length P + length X)) = (X = [])" by simp
  show ?thesis
    apply (subst contiguate_loop.simps)
    apply (simp only: c1 c2 if_False if_True Let_def n1 n2 swap_blocks c3)
    apply simp
    done
qed


lemma contiguate_loop_done: "contiguate_loop f f t l arr = Some arr"
  by (subst contiguate_loop.simps) simp

lemma contiguate_loop_rotates:
  assumes "l = length P + length X + length Y + length Z + 1"
  shows "contiguate_loop (length P) (Suc (length P + length X + length Y)) (Suc (length P + length X)) l
           (P @ x # X @ Y @ z # Z)
         = Some (P @ z # Z @ Y @ x # X)"
  using assms
proof (induction "length X + length Y + length Z" arbitrary: P X Y Z x z rule: less_induct)
  case less
  note l = less.prems
  show ?case
  proof (cases X)
    case Nil
    note X = Nil
    obtain x' X' where xs: "Y @ [x] = x' # X'" "length X' = length Y"
      by (cases Y) auto
    show ?thesis
    proof (cases Z)
      case Nil
      show ?thesis
        using l X Nil by (subst contiguate_loop_step) (simp add: contiguate_loop_done)
    next
      case (Cons z2 Z2)
      have "contiguate_loop (length (P @ [z])) (Suc (length (P @ [z]) + length X' + length ([] :: uint8_t list)))
              (Suc (length (P @ [z]) + length X')) l ((P @ [z]) @ x' # X' @ [] @ z2 # Z2)
            = Some ((P @ [z]) @ z2 # Z2 @ [] @ x' # X')"
        by (rule less.hyps) (use l X Cons xs(2) in simp_all)
      then have "contiguate_loop (Suc (length P)) (Suc (Suc (length P + length Y)))
              (Suc (Suc (length P + length Y))) l (P @ z # (Y @ [x]) @ z2 # Z2)
            = Some (P @ z # z2 # Z2 @ (Y @ [x]))"
        unfolding xs(1) using xs(2) by simp
      then show ?thesis
        using l X Cons by (subst contiguate_loop_step) simp
    qed
  next
    case (Cons x2 X2)
    note X = Cons
    show ?thesis
    proof (cases Z)
      case Nil
      obtain z' Z' where zs: "Y @ [x] = z' # Z'" "length Z' = length Y"
        by (cases Y) auto
      have "contiguate_loop (length (P @ [z])) (Suc (length (P @ [z]) + length X2 + length ([] :: uint8_t list)))
              (Suc (length (P @ [z]) + length X2)) l ((P @ [z]) @ x2 # X2 @ [] @ z' # Z')
            = Some ((P @ [z]) @ z' # Z' @ [] @ x2 # X2)"
        by (rule less.hyps) (use l X Nil zs(2) in simp_all)
      then have "contiguate_loop (Suc (length P)) (Suc (length P + length X))
              (Suc (length P + length X)) l (P @ z # X @ (Y @ [x]))
            = Some (P @ z # (Y @ [x]) @ X)"
        unfolding zs(1) using X by simp
      then show ?thesis
        using l X Nil by (subst contiguate_loop_step) simp
    next
      case (Cons z2 Z2)
      have "contiguate_loop (length (P @ [z])) (Suc (length (P @ [z]) + length X2 + length (Y @ [x])))
              (Suc (length (P @ [z]) + length X2)) l ((P @ [z]) @ x2 # X2 @ (Y @ [x]) @ z2 # Z2)
            = Some ((P @ [z]) @ z2 # Z2 @ (Y @ [x]) @ x2 # X2)"
        by (rule less.hyps) (use l X Cons in simp_all)
      then show ?thesis
        using l X Cons by (subst contiguate_loop_step) simp
    qed
  qed
qed


lemma contiguate_loop_whole:
  assumes "0 < t" "t < length d"
  shows "contiguate_loop 0 t t (length d - Suc 0) d = Some (drop t d @ take t d)"
proof -
  obtain x X where X: "take t d = x # X"
    using assms by (cases "take t d") auto
  obtain z Z where Z: "drop t d = z # Z"
    using assms by (cases "drop t d") auto
  have lx: "Suc (length X) = t"
    using arg_cong [OF X, of length] assms by simp
  have lz: "Suc (length Z) = length d - t"
    using arg_cong [OF Z, of length] by simp
  have d: "x # X @ z # Z = d"
    using append_take_drop_id [of t d] unfolding X Z by simp
  have l: "Suc (length X + length Z) = length d - Suc 0"
    using lx lz assms by linarith
  have r: "z # Z @ x # X = drop t d @ take t d"
    by (simp add: X Z)
  have "contiguate_loop 0 (Suc (length X)) (Suc (length X)) (Suc (length X + length Z)) (x # X @ z # Z)
        = Some (z # Z @ x # X)"
    using contiguate_loop_rotates [of "Suc (length X + length Z)" "[]" X "[]" Z x z] by simp
  then show ?thesis
    unfolding d l lx r .
qed

lemma contiguate_wrapped_nat:
  assumes "n \<le> 2147483647" "0 < h" "h < t" "t < n" "length d = n"
  shows "cBufferContiguate (Ptr \<lparr>data = d, size_b = of_nat n, head = of_nat h, tail = of_nat t\<rparr>)
         = Some (C_BUFFER_SUCCESS,
                 Ptr \<lparr>data = drop t d @ take t d, size_b = of_nat n, head = of_nat (n - t + h), tail = 0\<rparr>)"
proof -
  have rd: "cBufferAvailableForRead (Ptr \<lparr>data = d, size_b = of_nat n, head = of_nat h, tail = of_nat t\<rparr>)
         = of_nat (n - t + h)"
    using assms by (simp add: avail_read_nat)
  have e: "cBufferEmpty (Ptr \<lparr>data = d, size_b = of_nat n, head = of_nat h, tail = of_nat t\<rparr>) = 0"
    using assms by (simp add: cBufferEmpty_def eq_of_nat32)
  have w: "(of_nat h :: 32 word) < of_nat t" "(of_nat h :: 32 word) \<noteq> 0"
    using assms by (simp_all add: less_of_nat32 eq0_of_nat32)
  have u: "unat (of_nat t :: 32 word) = t" "unat ((of_nat n :: 64 word) - 1) = n - Suc 0"
    using assms by (simp_all add: unat_of_nat32 unat_of_nat64 diff1_of_nat del: of_nat_diff)
  have lp: "contiguate_loop 0 t t (n - Suc 0) d = Some (drop t d @ take t d)"
    using contiguate_loop_whole [of t d] assms by simp
  show ?thesis
    unfolding cBufferContiguate_def rd Let_def
    by (simp add: e w u lp del: of_nat_add of_nat_diff)
qed

text \<open>
  C3. \<^verbatim>\<open>cBufferContiguate\<close> succeeds on every instance in use, the write cursor at \<open>size_b\<close>
  included, and keeps the logical content; the instance it leaves is in use again, and
  well-formed if the one before the call was.
  Where the content wraps (\<^verbatim>\<open>cBufferIsContigous\<close> reports \<^verbatim>\<open>C_BUFFER_WRAPED\<close>) the array is
  rotated left by the read cursor, so that the content is the run from index 0 up to the
  count of \<^verbatim>\<open>cBufferAvailableForRead\<close>, the read cursor is 0 and the write cursor that count.
  An empty buffer gets both cursors set to 0; a buffer that is contiguous already is left as
  it is.
\<close>

theorem contiguate_removes_wrap:
  assumes "cbuf_state b"
  shows "\<exists>b'. cBufferContiguate (Ptr b) = Some (C_BUFFER_SUCCESS, Ptr b') \<and>
           cbuf_state b' \<and> (cbuf_valid b \<longrightarrow> cbuf_valid b') \<and>
           logical_content b' = logical_content b \<and>
           cBufferIsContigous (Ptr b') = C_BUFFER_SUCCESS \<and>
           (if head b = tail b then b' = b\<lparr>head := 0, tail := 0\<rparr>
            else if cBufferIsContigous (Ptr b) = C_BUFFER_WRAPED
            then tail b' = 0 \<and> head b' = cBufferAvailableForRead (Ptr b) \<and>
                 size_b b' = size_b b \<and> data b' = rotate (unat (tail b)) (data b) \<and>
                 take (length (logical_content b)) (data b') = logical_content b
            else b' = b)"
proof -
  from assms obtain d n h t where
    r: "b = \<lparr>data = d, size_b = of_nat n, head = of_nat h, tail = of_nat t\<rparr>"
    and bnd: "0 < n" "n \<le> 2147483647" "h \<le> n" "t < n" "length d = n"
    and u: "unat (tail b) = t" "data b = d"
    by (rule state_record)
  have eq: "(head b = tail b) = (h = t)"
    using bnd by (simp add: r eq_of_nat32)
  have wrp: "(head b < tail b \<and> head b \<noteq> 0) = (h < t \<and> 0 < h)"
    using bnd by (simp add: r less_of_nat32 eq0_of_nat32)
  have ne: "C_BUFFER_WRAPED \<noteq> C_BUFFER_SUCCESS"
    by (simp add: C_BUFFER_WRAPED_def C_BUFFER_SUCCESS_def)
  have ic: "(cBufferIsContigous (Ptr b) = C_BUFFER_WRAPED) = (h < t \<and> 0 < h)"
    using ne by (simp add: cBufferIsContigous_def wrp)
  have c: "logical_content b = (if h < t then drop t d @ take h d else take (h - t) (drop t d))"
    unfolding r using bnd by (simp add: content_nat)
  consider (empty) "h = t" | (wrapped) "h < t" "0 < h" | (straight) "h \<noteq> t" "\<not> (h < t \<and> 0 < h)"
    by blast
  then show ?thesis
  proof cases
    case empty
    let ?b = "b\<lparr>head := 0, tail := 0\<rparr>"
    have "cBufferContiguate (Ptr b) = Some (C_BUFFER_SUCCESS, Ptr ?b)"
      using empty eq by (simp add: cBufferContiguate_def cBufferEmpty_def)
    moreover have v: "cbuf_valid ?b"
      using assms by (simp add: cbuf_valid_def cbuf_state_def)
    moreover have "cbuf_state ?b"
      using v by (rule valid_is_state)
    moreover have "logical_content ?b = logical_content b"
      unfolding c using empty by (simp add: logical_content_def)
    moreover have "cBufferIsContigous (Ptr ?b) = C_BUFFER_SUCCESS"
      by (simp add: cBufferIsContigous_def)
    ultimately show ?thesis using empty eq by simp
  next
    case wrapped
    define b' where "b' = \<lparr>data = drop t d @ take t d, size_b = (of_nat n :: size_t),
                           head = (of_nat (n - t + h) :: uint32_t), tail = (0 :: uint32_t)\<rparr>"
    have "cBufferContiguate (Ptr b) = Some (C_BUFFER_SUCCESS, Ptr b')"
      unfolding r b'_def using bnd wrapped by (intro contiguate_wrapped_nat)
    moreover have v: "cbuf_valid b'"
      using valid_nat [of n "n - t + h" 0 "drop t d @ take t d"] bnd wrapped
      by (simp add: b'_def del: of_nat_add of_nat_diff)
    moreover have "cbuf_state b'"
      using v by (rule valid_is_state)
    moreover have lc: "logical_content b' = logical_content b"
      unfolding c using bnd wrapped
      by (simp add: logical_content_def b'_def unat_of_nat32 del: of_nat_add of_nat_diff)
    moreover have "cBufferIsContigous (Ptr b') = C_BUFFER_SUCCESS"
      by (simp add: cBufferIsContigous_def b'_def)
    moreover have "head b' = cBufferAvailableForRead (Ptr b)"
      unfolding r using bnd wrapped by (simp add: avail_read_nat b'_def)
    moreover have "data b' = rotate (unat (tail b)) (data b)"
      unfolding u using bnd by (simp add: b'_def rotate_drop_take)
    moreover have "take (length (logical_content b)) (data b') = logical_content b"
      unfolding c using bnd wrapped by (simp add: b'_def)
    moreover have "tail b' = 0" "size_b b' = size_b b"
      by (simp_all add: b'_def r)
    ultimately show ?thesis using wrapped eq ic by auto
  next
    case straight
    have nw: "\<not> (head b < tail b \<and> head b \<noteq> 0)" "head b \<noteq> tail b"
      using straight wrp eq by blast+
    have "cBufferContiguate (Ptr b) = Some (C_BUFFER_SUCCESS, Ptr b)"
      using nw by (auto simp add: cBufferContiguate_def cBufferEmpty_def)
    moreover have "cBufferIsContigous (Ptr b) = C_BUFFER_SUCCESS"
      using nw by (auto simp add: cBufferIsContigous_def)
    ultimately show ?thesis using straight eq ic assms by auto
  qed
qed

text \<open>
  The wrapped instance is rotated by eight; a contiguous one stays where it is, also with
  the write cursor at \<open>size_b\<close>.
\<close>

theorem contiguate_removes_wrap_witness:
  "cbuf_state wrapped10 \<and> cbuf_valid wrapped10 \<and>
   cBufferContiguate (Ptr wrapped10)
     = Some (C_BUFFER_SUCCESS,
             Ptr \<lparr>data = [9, 10, 11, 12, 3, 4, 5, 6, 7, 8], size_b = 10, head = 4, tail = 0\<rparr>) \<and>
   cbuf_valid \<lparr>data = [9, 10, 11, 12, 3, 4, 5, 6, 7, 8], size_b = 10, head = 4, tail = 0\<rparr> \<and>
   logical_content wrapped10 = [9, 10, 11, 12] \<and>
   cbuf_state \<lparr>data = [1, 2, 3, 4, 5], size_b = 5, head = 4, tail = 2\<rparr> \<and>
   cBufferContiguate (Ptr \<lparr>data = [1, 2, 3, 4, 5], size_b = 5, head = 4, tail = 2\<rparr>)
     = Some (C_BUFFER_SUCCESS, Ptr \<lparr>data = [1, 2, 3, 4, 5], size_b = 5, head = 4, tail = 2\<rparr>) \<and>
   cbuf_state ended10 \<and>
   cBufferContiguate (Ptr ended10) = Some (C_BUFFER_SUCCESS, Ptr ended10) \<and>
   logical_content ended10 = [5, 6, 7, 8, 9, 10]"
proof -
  have v: "cbuf_state wrapped10"
    "cbuf_state \<lparr>data = [1, 2, 3, 4, 5], size_b = 5, head = 4, tail = 2\<rparr>"
    "cbuf_state ended10"
    by (simp_all add: cbuf_state_def wrapped10_def ended10_def)
  have w: "cbuf_valid wrapped10"
    "cbuf_valid \<lparr>data = [9, 10, 11, 12, 3, 4, 5, 6, 7, 8], size_b = 10, head = 4, tail = 0\<rparr>"
    by (simp_all add: cbuf_valid_def wrapped10_def)
  have l: "contiguate_loop 0 8 8 9 [11, 12, 3, 4, 5, 6, 7, 8, 9, 10]
           = Some [9, 10, 11, 12, 3, 4, 5, 6, 7, 8]"
    by (simp add: contiguate_loop.simps)
  show ?thesis
    using v w contiguate_removes_wrap [OF v(1)] contiguate_removes_wrap [OF v(2)]
      contiguate_removes_wrap [OF v(3)]
    by (simp add: wrapped10_def ended10_def cBufferContiguate_def cBufferEmpty_def
        cBufferAvailableForRead_def logical_content_def l)
qed

section \<open>What holds of the bulk read and of the prepend\<close>

text \<open>
  \<^verbatim>\<open>cBufferReadBytes\<close> into an output array that has room for the whole block up to the end of
  the storage array: the count is returned, the read cursor moves by it, and the first
  \<^verbatim>\<open>read_size\<close> bytes of the output array are the first \<^verbatim>\<open>read_size\<close> bytes of the content.
\<close>

lemma readBytes_nat:
  assumes "0 < n" "n \<le> 2147483647" "h < n" "t < n" "length d = n"
    and "k \<le> (if h < t then n - t + h else h - t)"
    and "k \<le> length out" "h < t \<longrightarrow> n - t \<le> length out"
  shows "cBufferReadBytes (Ptr \<lparr>data = d, size_b = of_nat n, head = of_nat h, tail = of_nat t\<rparr>)
           (Ptr out) (of_nat k) =
         Some (of_nat k,
               Ptr \<lparr>data = d, size_b = of_nat n, head = of_nat h, tail = of_nat ((t + k) mod n)\<rparr>,
               Ptr (if h < t then
                      (if k \<le> n - t then drop t d @ drop (n - t) out
                       else drop t d @ take (k - (n - t)) d @ drop k out)
                    else take k (drop t d) @ drop k out))"
proof -
  define a where "a = (if h < t then n - t + h else h - t)"
  have rd: "cBufferAvailableForRead (Ptr \<lparr>data = d, size_b = of_nat n, head = of_nat h, tail = of_nat t\<rparr>)
         = of_nat a"
    unfolding a_def using assms(2-4) by (simp add: avail_read_nat)
  have ab: "a \<le> 2147483646" "k \<le> a" using assms(2-4,6) by (auto simp: a_def)
  have s: "sint (of_nat a :: 32 word) = int a" using ab by (simp add: sint_of_nat32)
  have c: "(scast (of_nat a :: 32 word) :: 64 word) = of_nat a" using ab by (simp add: scast_of_nat)
  have l: "\<not> (of_nat a :: 64 word) < of_nat k"
    using ab by (subst less_of_nat64) simp_all
  have md: "MODULO_INC (of_nat t) (of_nat k) (of_nat n) = Some (of_nat ((t + k) mod n))"
    using assms(1-4) ab
    by (simp add: MODULO_INC_def ucast_up_of_nat add_of_nat mod_of_nat64 eq0_of_nat64
        del: of_nat_add of_nat_diff)
  have u: "unat (of_nat t :: 32 word) = t" "(ucast (of_nat t :: 32 word) :: 64 word) = of_nat t"
    using assms(2,4) by (simp_all add: unat_of_nat32 ucast_up_of_nat)
  have d1: "(of_nat n :: 64 word) - of_nat t = of_nat (n - t)"
    using assms(4) by (intro diff_of_nat) simp
  have un: "unat (of_nat (n - t) :: 64 word) = n - t"
    using assms(2) by (intro unat_of_nat64) simp
  have hd: "(of_nat h :: 32 word) < of_nat t \<longleftrightarrow> h < t"
    using assms(2-4) by (simp add: less_of_nat32)
  show ?thesis
  proof (cases "h < t")
    case True
    have m1: "memcpy out 0 d t (of_nat (n - t)) = Some (drop t d @ drop (n - t) out)"
      using assms True by (subst memcpy_nat) simp_all
    show ?thesis
    proof (cases "k \<le> n - t")
      case le: True
      have kl: "(of_nat k :: 64 word) \<le> of_nat (n - t)"
        using le assms(2) by (subst le_of_nat64) simp_all
      show ?thesis
        unfolding cBufferReadBytes_def rd Let_def
        using True le
        by (simp add: s c l md u d1 un hd m1 kl C_BUFFER_SUCCESS_def ucast_down_of_nat
            del: of_nat_add of_nat_diff)
    next
      case gt: False
      have kl: "\<not> (of_nat k :: 64 word) \<le> of_nat (n - t)"
        using gt assms(2) ab by (subst le_of_nat64) simp_all
      have d2: "(of_nat k :: 64 word) - of_nat (n - t) = of_nat (k - (n - t))"
        using gt by (intro diff_of_nat) simp
      have m2: "memcpy (drop t d @ drop (n - t) out) (n - t) d 0 (of_nat (k - (n - t)))
                = Some (drop t d @ take (k - (n - t)) d @ drop k out)"
        using assms True gt ab by (subst memcpy_nat) (simp_all add: a_def)
      show ?thesis
        unfolding cBufferReadBytes_def rd Let_def
        using True gt
        by (simp add: s c l md u d1 d2 un hd m1 m2 kl C_BUFFER_SUCCESS_def ucast_down_of_nat
            del: of_nat_add of_nat_diff)
    qed
  next
    case False
    have m1: "memcpy out 0 d t (of_nat k) = Some (take k (drop t d) @ drop k out)"
      using assms False ab by (subst memcpy_nat) (simp_all add: a_def)
    show ?thesis
      unfolding cBufferReadBytes_def rd Let_def
      using False
      by (simp add: s c l md u hd m1 C_BUFFER_SUCCESS_def ucast_down_of_nat
          del: of_nat_add of_nat_diff)
  qed
qed


lemma readBytes_with_room:
  assumes "cbuf_valid b" "unat k \<le> length (logical_content b)" "unat (size_b b) \<le> length out"
  shows "\<exists>out'. cBufferReadBytes (Ptr b) (Ptr out) k
           = Some (ucast k,
                   Ptr (b\<lparr>tail := of_nat ((unat (tail b) + unat k) mod unat (size_b b))\<rparr>),
                   Ptr out') \<and>
           sint (ucast k :: int32_t) = uint k \<and>
           length out' = length out \<and>
           take (unat k) out' = take (unat k) (logical_content b)"
proof -
  from assms(1) obtain d n h t where
    r: "b = \<lparr>data = d, size_b = of_nat n, head = of_nat h, tail = of_nat t\<rparr>"
    and bnd: "0 < n" "n \<le> 2147483647" "h < n" "t < n" "length d = n"
    and u: "unat (size_b b) = n" "unat (tail b) = t"
    by (rule valid_record)
  obtain j where j: "k = of_nat j" "j = unat k" "j < 2 ^ 64"
    using word64_repr by blast
  have c: "logical_content b = (if h < t then drop t d @ take h d else take (h - t) (drop t d))"
    unfolding r using bnd by (simp add: content_nat)
  have ja: "j \<le> (if h < t then n - t + h else h - t)"
    using assms(2) bnd unfolding c j(2) [symmetric] by (auto split: if_splits)
  have jn: "j < n" using ja bnd by (auto split: if_splits)
  have no: "n \<le> length out" using assms(3) u by simp
  define out' where "out' = (if h < t then
                      (if j \<le> n - t then drop t d @ drop (n - t) out
                       else drop t d @ take (j - (n - t)) d @ drop j out)
                    else take j (drop t d) @ drop j out)"
  have "cBufferReadBytes (Ptr b) (Ptr out) k =
         Some (of_nat j,
               Ptr \<lparr>data = d, size_b = of_nat n, head = of_nat h, tail = of_nat ((t + j) mod n)\<rparr>,
               Ptr out')"
    unfolding r j(1) out'_def
    by (rule readBytes_nat) (use bnd ja jn no in auto)
  moreover have "(ucast k :: int32_t) = of_nat j"
    unfolding j(1) by (rule ucast_down_of_nat)
  moreover have "sint (of_nat j :: int32_t) = uint k"
  proof -
    have "sint (of_nat j :: 32 word) = int j" using jn bnd by (simp add: sint_of_nat32)
    also have "int j = uint k" unfolding j(2) by simp
    finally show ?thesis .
  qed
  moreover have "b\<lparr>tail := of_nat ((unat (tail b) + unat k) mod unat (size_b b))\<rparr>
      = \<lparr>data = d, size_b = of_nat n, head = of_nat h, tail = of_nat ((t + j) mod n)\<rparr>"
    unfolding u j(2) [symmetric] by (simp add: r)
  moreover have "length out' = length out"
    using bnd ja jn no by (auto simp: out'_def)
  moreover have "take j out' = take j (logical_content b)"
    unfolding c using bnd ja jn no by (auto simp: out'_def)
  ultimately show ?thesis unfolding j(2) [symmetric] by simp
qed

text \<open>A prepend that fits puts the bytes in front of the logical content.\<close>

lemma prepend_guard_nat:
  assumes "n \<le> 2147483647" "h < n" "t < n"
    and "0 < k" "k \<le> (if h < t then t - h - 1 else n - h + t - 1)"
  shows "(of_nat k :: 64 word) \<noteq> 0"
    "\<not> (scast (cBufferAvailableForWrite
          (Ptr \<lparr>data = d, size_b = of_nat n, head = of_nat h, tail = of_nat t\<rparr>)) :: 64 word) < of_nat k"
proof -
  define a where "a = (if h < t then t - h - 1 else n - h + t - 1)"
  have wr: "cBufferAvailableForWrite (Ptr \<lparr>data = d, size_b = of_nat n, head = of_nat h, tail = of_nat t\<rparr>)
         = of_nat a"
    unfolding a_def using assms(1-3) by (rule avail_write_nat)
  have ab: "a \<le> 2147483646" "k \<le> a" using assms(1-3,5) by (auto simp: a_def)
  have c: "(scast (of_nat a :: 32 word) :: 64 word) = of_nat a" using ab by (simp add: scast_of_nat)
  have l: "\<not> (of_nat a :: 64 word) < of_nat k"
    using ab by (subst less_of_nat64) simp_all
  show "(of_nat k :: 64 word) \<noteq> 0" using assms(4) ab by (simp add: eq0_of_nat64)
  show "\<not> (scast (cBufferAvailableForWrite
          (Ptr \<lparr>data = d, size_b = of_nat n, head = of_nat h, tail = of_nat t\<rparr>)) :: 64 word) < of_nat k"
    unfolding wr c by (rule l)
qed

lemma prepend_straight_nat:
  assumes "n \<le> 2147483647" "h < n" "t < n" "length d = n" "h \<noteq> t"
    and "0 < k" "k \<le> (if h < t then t - h - 1 else n - h + t - 1)" "k \<le> length src"
    and "k \<le> t"
  shows "cBufferPrepend (Ptr \<lparr>data = d, size_b = of_nat n, head = of_nat h, tail = of_nat t\<rparr>)
           (Ptr src) (of_nat k) =
         Some (of_nat k, Ptr \<lparr>data = take (t - k) d @ take k src @ drop t d, size_b = of_nat n,
                                head = of_nat h, tail = of_nat (t - k)\<rparr>)"
proof -
  note g = prepend_guard_nat(1) [OF assms(1-3,6,7)] prepend_guard_nat(2) [OF assms(1-3,6,7), of d]
  have ne: "(of_nat h :: 32 word) \<noteq> of_nat t"
    using assms(1-3,5) by (simp add: eq_of_nat32)
  have u: "(ucast (of_nat t :: 32 word) :: 64 word) = of_nat t"
    "unat (of_nat (t - k) :: 32 word) = t - k"
    using assms(1,3) by (simp_all add: unat_of_nat32 ucast_up_of_nat del: of_nat_diff)
  have gt: "\<not> (of_nat t :: 64 word) < of_nat k"
    using assms(1,3,9) by (subst less_of_nat64) simp_all
  have d1: "(of_nat t :: 64 word) - of_nat k = of_nat (t - k)"
    using assms(9) by (intro diff_of_nat) simp
  have m1: "memcpy d (t - k) src 0 (of_nat k) = Some (take (t - k) d @ take k src @ drop t d)"
    using assms by (subst memcpy_nat) simp_all
  show ?thesis
    unfolding cBufferPrepend_def Let_def
    by (simp add: g ne u gt d1 m1 ucast_down_of_nat del: of_nat_add of_nat_diff)
qed

lemma prepend_wrapped_nat:
  assumes "n \<le> 2147483647" "h < n" "t < n" "length d = n" "h \<noteq> t"
    and "0 < k" "k \<le> (if h < t then t - h - 1 else n - h + t - 1)" "k \<le> length src"
    and "t < k"
  shows "cBufferPrepend (Ptr \<lparr>data = d, size_b = of_nat n, head = of_nat h, tail = of_nat t\<rparr>)
           (Ptr src) (of_nat k) =
         Some (of_nat k,
               Ptr \<lparr>data = take (n - (k - t)) (take t (drop (k - t) src) @ drop t d) @ take (k - t) src,
                     size_b = of_nat n, head = of_nat h, tail = of_nat (n - (k - t))\<rparr>)"
proof -
  note g = prepend_guard_nat(1) [OF assms(1-3,6,7)] prepend_guard_nat(2) [OF assms(1-3,6,7), of d]
  have kn: "k < n" using assms(2,3,7) by (auto split: if_splits)
  have ne: "(of_nat h :: 32 word) \<noteq> of_nat t"
    using assms(1-3,5) by (simp add: eq_of_nat32)
  have u: "(ucast (of_nat t :: 32 word) :: 64 word) = of_nat t"
    "unat (of_nat (k - t) :: 64 word) = k - t"
    "unat (of_nat (n - (k - t)) :: 64 word) = n - (k - t)"
    using assms(1,3) kn by (simp_all add: unat_of_nat64 ucast_up_of_nat del: of_nat_diff)
  have gt: "(of_nat t :: 64 word) < of_nat k"
    using assms(1,3,9) kn by (subst less_of_nat64) simp_all
  have d1: "(of_nat k :: 64 word) - of_nat t = of_nat (k - t)"
    using assms(9) by (intro diff_of_nat) simp
  have d2: "(of_nat n :: 64 word) - of_nat (k - t) = of_nat (n - (k - t))"
    using kn by (intro diff_of_nat) simp
  have m1: "memcpy d 0 src (k - t) (of_nat t) = Some (take t (drop (k - t) src) @ drop t d)"
    using assms by (subst memcpy_nat) simp_all
  have m2: "memcpy (take t (drop (k - t) src) @ drop t d) (n - (k - t)) src 0 (of_nat (k - t))
            = Some (take (n - (k - t)) (take t (drop (k - t) src) @ drop t d) @ take (k - t) src)"
    using assms kn by (subst memcpy_nat) simp_all
  show ?thesis
    unfolding cBufferPrepend_def Let_def
    by (simp add: g ne u gt d1 d2 m1 m2 ucast_down_of_nat del: of_nat_add of_nat_diff)
qed

lemma prepend_puts_in_front:
  assumes "cbuf_valid b" "0 < k" "int k \<le> sint (cBufferAvailableForWrite (Ptr b))" "k \<le> length src"
  shows "\<exists>b'. cBufferPrepend (Ptr b) (Ptr src) (of_nat k) = Some (of_nat k, Ptr b') \<and>
           cbuf_valid b' \<and> size_b b' = size_b b \<and>
           logical_content b' = take k src @ logical_content b"
proof -
  from assms(1) obtain d n h t where
    r: "b = \<lparr>data = d, size_b = of_nat n, head = of_nat h, tail = of_nat t\<rparr>"
    and bnd: "0 < n" "n \<le> 2147483647" "h < n" "t < n" "length d = n"
    by (rule valid_record)
  define a where "a = (if h < t then t - h - 1 else n - h + t - 1)"
  have ab: "a \<le> 2147483646" using bnd by (auto simp: a_def)
  have "cBufferAvailableForWrite (Ptr b) = of_nat a"
    unfolding r a_def using bnd by (simp add: avail_write_nat)
  then have "sint (cBufferAvailableForWrite (Ptr b)) = int a"
    using ab by (simp add: sint_of_nat32)
  then have ka: "k \<le> a" using assms(3) by simp
  have c: "logical_content b = (if h < t then drop t d @ take h d else take (h - t) (drop t d))"
    unfolding r using bnd by (simp add: content_nat)
  consider (empty) "h = t" | (straight) "h \<noteq> t" "k \<le> t" | (wrapped) "h \<noteq> t" "t < k"
    by linarith
  then show ?thesis
  proof cases
    case empty
    define d' where "d' = take (n - k) d @ take k src"
    have kn: "k \<le> n - 1" using ka empty bnd by (simp add: a_def)
    have ld: "length d' = n" using bnd kn assms(4) by (simp add: d'_def)
    have t': "n - k < n" "0 < n - k" using assms(2) kn bnd by linarith+
    have "cBufferPrepend (Ptr b) (Ptr src) (of_nat k)
          = Some (of_nat k, Ptr \<lparr>data = d', size_b = of_nat n, head = of_nat 0, tail = of_nat (n - k)\<rparr>)"
      unfolding r d'_def empty
      using prepend_empty_nat [of n t d k src] bnd assms(2,4) kn by simp
    moreover have "cbuf_valid \<lparr>data = d', size_b = of_nat n, head = of_nat 0, tail = of_nat (n - k)\<rparr>"
      using bnd(1,2) bnd(1) t'(1) ld by (rule valid_nat)
    moreover have "logical_content \<lparr>data = d', size_b = of_nat n, head = of_nat 0, tail = of_nat (n - k)\<rparr>
        = take k src @ logical_content b"
      using bnd t' kn ld assms(4) empty unfolding c
      by (subst content_nat) (simp_all add: d'_def)
    ultimately show ?thesis by (auto simp: r)
  next
    case straight
    define d' where "d' = take (t - k) d @ take k src @ drop t d"
    have ld: "length d' = n" using bnd straight assms(4) by (simp add: d'_def)
    have t': "t - k < n" using bnd by linarith
    have "cBufferPrepend (Ptr b) (Ptr src) (of_nat k)
          = Some (of_nat k, Ptr \<lparr>data = d', size_b = of_nat n, head = of_nat h, tail = of_nat (t - k)\<rparr>)"
      unfolding r d'_def
      by (rule prepend_straight_nat) (use bnd straight assms(2,4) ka in \<open>simp_all add: a_def\<close>)
    moreover have "cbuf_valid \<lparr>data = d', size_b = of_nat n, head = of_nat h, tail = of_nat (t - k)\<rparr>"
      using bnd(1,2,3) t' ld by (rule valid_nat)
    moreover have "logical_content \<lparr>data = d', size_b = of_nat n, head = of_nat h, tail = of_nat (t - k)\<rparr>
        = take k src @ logical_content b"
    proof (cases "h < t")
      case True
      then have "h < t - k" using ka by (simp add: a_def)
      then show ?thesis
        using bnd t' ld assms(4) straight True unfolding c
        by (subst content_nat) (simp_all add: d'_def)
    next
      case False
      then have "\<not> h < t - k" by linarith
      then show ?thesis
        using bnd t' ld assms(4) straight False unfolding c
        by (subst content_nat) (simp_all add: d'_def)
    qed
    ultimately show ?thesis by (auto simp: r)
  next
    case wrapped
    define t' where "t' = n - (k - t)"
    define d' where "d' = take t' (take t (drop (k - t) src) @ drop t d) @ take (k - t) src"
    have th: "t < h" "k \<le> n - h + t - 1"
      using wrapped ka by (auto simp: a_def split: if_splits)
    have ht': "h < t'" "t' < n" "t \<le> t'" using th wrapped bnd by (auto simp: t'_def)
    have ld: "length d' = n" using bnd wrapped assms(4) th by (simp add: d'_def t'_def)
    have "cBufferPrepend (Ptr b) (Ptr src) (of_nat k)
          = Some (of_nat k, Ptr \<lparr>data = d', size_b = of_nat n, head = of_nat h, tail = of_nat t'\<rparr>)"
      unfolding r d'_def t'_def
      by (rule prepend_wrapped_nat) (use bnd wrapped assms(2,4) ka in \<open>simp_all add: a_def\<close>)
    moreover have "cbuf_valid \<lparr>data = d', size_b = of_nat n, head = of_nat h, tail = of_nat t'\<rparr>"
      using bnd(1,2,3) ht'(2) ld by (rule valid_nat)
    moreover have "logical_content \<lparr>data = d', size_b = of_nat n, head = of_nat h, tail = of_nat t'\<rparr>
        = take k src @ logical_content b"
    proof -
      have "logical_content \<lparr>data = d', size_b = of_nat n, head = of_nat h, tail = of_nat t'\<rparr>
            = drop t' d' @ take h d'"
        using bnd ht' ld by (subst content_nat) simp_all
      moreover have "drop t' d' = take (k - t) src"
        using bnd ht' assms(4) wrapped by (simp add: d'_def)
      moreover have "take h d' = take t (drop (k - t) src) @ take (h - t) (drop t d)"
        using bnd ht' th assms(4) wrapped by (simp add: d'_def)
      moreover have "take k src = take (k - t) src @ take t (drop (k - t) src)"
        using take_add [of "k - t" t src] wrapped by simp
      moreover have "logical_content b = take (h - t) (drop t d)"
        unfolding c using th by simp
      ultimately show ?thesis by simp
    qed
    ultimately show ?thesis by (auto simp: r)
  qed
qed

lemma be32_decode:
  "push_bit 24 (ucast (ucast (drop_bit 24 v) :: 8 word) :: 32 word) OR
   push_bit 16 (ucast (ucast (drop_bit 16 v) :: 8 word)) OR
   push_bit 8 (ucast (ucast (drop_bit 8 v) :: 8 word)) OR
   ucast (ucast v :: 8 word) = (v :: 32 word)"
proof (rule bit_word_eqI)
  fix n :: nat
  assume "n < LENGTH(32)"
  then have n: "n < 32" by simp
  consider "n < 8" | "8 \<le> n" "n < 16" | "16 \<le> n" "n < 24" | "24 \<le> n"
    by linarith
  then show "bit (push_bit 24 (ucast (ucast (drop_bit 24 v) :: 8 word) :: 32 word) OR
   push_bit 16 (ucast (ucast (drop_bit 16 v) :: 8 word)) OR
   push_bit 8 (ucast (ucast (drop_bit 8 v) :: 8 word)) OR
   ucast (ucast v :: 8 word)) n = bit v n"
    using n by cases (auto simp add: bit_simps)
qed

text \<open>
  With room in the output array for the whole storage array, a prepend of a 32-bit value and
  a read of four bytes give back the value in big-endian order.
\<close>

lemma prependUint32_readBytes_with_room:
  assumes "cbuf_valid b" "4 \<le> sint (cBufferAvailableForWrite (Ptr b))"
    and "unat (size_b b) \<le> length out"
  shows "\<exists>b' b'' out'.
           cBufferPrependUint32 (Ptr b) v = Some (4, Ptr b') \<and>
           cBufferReadBytes (Ptr b') (Ptr out) 4 = Some (4, Ptr b'', Ptr out') \<and>
           push_bit 24 (ucast (out' ! 0) :: uint32_t) OR push_bit 16 (ucast (out' ! 1)) OR
             push_bit 8 (ucast (out' ! 2)) OR ucast (out' ! 3) = v"
proof -
  define src :: "uint8_t list" where
    "src = [ucast (drop_bit 24 v), ucast (drop_bit 16 v), ucast (drop_bit 8 v), ucast v]"
  have ls: "length src = 4" by (simp add: src_def)
  have ts: "take 4 src = src" using ls by simp
  have "\<exists>b'. cBufferPrepend (Ptr b) (Ptr src) (of_nat 4) = Some (of_nat 4, Ptr b') \<and>
           cbuf_valid b' \<and> size_b b' = size_b b \<and>
           logical_content b' = take 4 src @ logical_content b"
    by (rule prepend_puts_in_front) (use assms(1,2) ls in simp_all)
  then obtain b' where p: "cBufferPrepend (Ptr b) (Ptr src) 4 = Some (4, Ptr b')"
    and b': "cbuf_valid b'" "size_b b' = size_b b" "logical_content b' = src @ logical_content b"
    unfolding ts by auto
  have p': "cBufferPrependUint32 (Ptr b) v = Some (4, Ptr b')"
    unfolding cBufferPrependUint32_def src_def [symmetric] by (rule p)
  have u4: "unat (4 :: size_t) = 4" "(ucast (4 :: size_t) :: int32_t) = 4" by simp_all
  have "\<exists>out'. cBufferReadBytes (Ptr b') (Ptr out) 4
           = Some (ucast (4 :: size_t),
                   Ptr (b'\<lparr>tail := of_nat ((unat (tail b') + unat (4 :: size_t)) mod unat (size_b b'))\<rparr>),
                   Ptr out') \<and>
           sint (ucast (4 :: size_t) :: int32_t) = uint (4 :: size_t) \<and>
           length out' = length out \<and>
           take (unat (4 :: size_t)) out' = take (unat (4 :: size_t)) (logical_content b')"
    by (rule readBytes_with_room) (use b' assms(3) ls u4 in simp_all)
  then obtain b'' out' where rd: "cBufferReadBytes (Ptr b') (Ptr out) 4 = Some (4, Ptr b'', Ptr out')"
    and tk: "take 4 out' = src"
    unfolding u4 b'(3) using ls by auto
  have nth: "out' ! i = src ! i" if "i < 4" for i
    using that nth_take [of i 4 out'] unfolding tk by simp
  have "out' ! 0 = ucast (drop_bit 24 v)" "out' ! 1 = ucast (drop_bit 16 v)"
    "out' ! 2 = ucast (drop_bit 8 v)" "out' ! 3 = ucast v"
    using nth [of 0] nth [of 1] nth [of 2] nth [of 3] by (simp_all add: src_def)
  then have "push_bit 24 (ucast (out' ! 0) :: uint32_t) OR push_bit 16 (ucast (out' ! 1)) OR
             push_bit 8 (ucast (out' ! 2)) OR ucast (out' ! 3) = v"
    using be32_decode [of v] by simp
  with p' rd show ?thesis by blast
qed

end
